theory Spec2Isabelle
  imports Complex_Main "HOL-Library.Word" "HOL-Library.Multiset"
begin

unbundle bit_operations_syntax

section \<open>JavaScript values used by the viewer\<close>

text \<open>
  A JavaScript string is a sequence of UTF-16 code units; \<open>charCodeAt\<close> returns the
  unit at an index. A unit is modelled by its number. \<open>units\<close> turns an ASCII literal
  into such a sequence, so that \<open>units ''A/x.png''\<close> is the string \<open>"A/x.png"\<close>.
\<close>

type_synonym jsstring = "nat list"

definition units :: "string \<Rightarrow> jsstring" where
  "units cs = map of_char cs"

text \<open>
  JavaScript numbers are doubles. The numbers of the model are integers, and every sum
  the source forms of them is exact as long as it stays below \<open>2 ^ 53\<close> in absolute
  value, which the model takes for granted.

  A JavaScript number that results from \<open>charCodeAt(p) - 48\<close> is an integer, or NaN
  when \<open>p\<close> is past the end of the string: \<open>None\<close> is NaN.
\<close>

definition charCodeAt :: "jsstring \<Rightarrow> nat \<Rightarrow> int option" where
  "charCodeAt s p = (if p < length s then Some (int (s ! p)) else None)"

text \<open>
  The bitwise operators first convert their operands with ToInt32: NaN becomes 0, an
  integer is taken modulo \<open>2 ^ 32\<close>. The shift count of \<open><<\<close> is taken modulo 32.
\<close>

definition toInt32 :: "int option \<Rightarrow> 32 word" where
  "toInt32 c = (case c of None \<Rightarrow> 0 | Some i \<Rightarrow> word_of_int i)"

definition shl :: "32 word \<Rightarrow> nat \<Rightarrow> 32 word" where
  "shl v n = push_bit (n mod 32) v"

text \<open>
  The exceptions of the model. The source throws none itself; the one exception it can
  meet comes from the host, when an image data of size zero is asked for.
\<close>

datatype js_error = IndexSizeError

section \<open>The varint decoder: decodeCocoRleString\<close>

text \<open>
  The inner loop \<open>while (more) { ... }\<close> of the decoder, entered with position \<open>p\<close>,
  unit count \<open>k\<close> and accumulator \<open>x\<close>; it returns the position and the accumulator at
  its exit. The accumulator is an int32, since every assignment to it in the loop is a
  bitwise one.
\<close>

function decode_unit :: "jsstring \<Rightarrow> nat \<Rightarrow> nat \<Rightarrow> 32 word \<Rightarrow> nat \<times> 32 word" where
  "decode_unit s p k x =
     (let c = map_option (\<lambda>u. u - 48) (charCodeAt s p);
          x1 = x OR shl (toInt32 c AND 0x1f) (5 * k);
          more = toInt32 c AND 0x20;
          p1 = p + 1;
          k1 = k + 1;
          x2 = (if more = 0 \<and> toInt32 c AND 0x10 \<noteq> 0 then x1 OR shl (- 1) (5 * k1) else x1)
      in if more \<noteq> 0 then decode_unit s p1 k1 x2 else (p1, x2))"
  by pat_completeness auto
termination
proof (relation "measure (\<lambda>(s, p, k, x). length s - p)")
  show "wf (measure (\<lambda>(s, p, k, x). length s - p))"
    by simp
next
  fix s :: jsstring and p k :: nat and x :: "32 word"
  fix c x1 more p1 k1 x2
  assume c: "c = map_option (\<lambda>u. u - 48) (charCodeAt s p)"
    and more: "more = toInt32 c AND 0x20" "more \<noteq> 0"
    and p1: "p1 = p + 1"
  have "p < length s"
  proof (rule ccontr)
    assume "\<not> p < length s"
    then have "c = None"
      by (simp add: c charCodeAt_def)
    with more show False
      by (simp add: toInt32_def)
  qed
  then show "((s, p1, k1, x2), (s, p, k, x)) \<in> measure (\<lambda>(s, p, k, x). length s - p)"
    by (simp add: p1)
qed

text \<open>Each pass of the inner loop consumes a character, or steps past the end.\<close>

declare decode_unit.simps [simp del]

lemma decode_unit_advances: "p < fst (decode_unit s p k x)"
proof (induction s p k x rule: decode_unit.induct)
  case (1 s p k x)
  show ?case
  proof (cases "toInt32 (map_option (\<lambda>u. u - 48) (charCodeAt s p)) AND 0x20 = 0")
    case True
    then show ?thesis
      by (subst decode_unit.simps) (simp add: Let_def)
  next
    case False
    from "1.IH" [OF refl refl refl refl refl refl False]
    have "p + 1 < fst (decode_unit s (p + 1) (k + 1)
        (x OR shl (toInt32 (map_option (\<lambda>u. u - 48) (charCodeAt s p)) AND 0x1f) (5 * k)))"
      using False by simp
    then show ?thesis
      using False by (subst decode_unit.simps) (simp add: Let_def)
  qed
qed

text \<open>
  The outer loop \<open>while (p < rleString.length)\<close>. The index \<open>m\<close> of the source counts
  the values stored so far, so it is the length of \<open>counts\<close>, and \<open>counts[m++] = x\<close>
  appends. The decoded int32 is added to \<open>counts[m - 2]\<close> as a number: the sum is
  not wrapped.
\<close>

function decode_loop :: "jsstring \<Rightarrow> nat \<Rightarrow> int list \<Rightarrow> int list" where
  "decode_loop s p counts =
     (if p < length s then
        (case decode_unit s p 0 0 of
           (p', x) \<Rightarrow>
             let m = length counts;
                 x' = (if m > 2 then sint x + counts ! (m - 2) else sint x)
             in decode_loop s p' (counts @ [x']))
      else counts)"
  by pat_completeness auto
termination
  apply (relation "measure (\<lambda>(s, p, counts). length s - p)")
   apply simp
  subgoal for s p counts y p' x
    using decode_unit_advances [of p s 0 0] by (cases "decode_unit s p 0 0") auto
  done

declare decode_loop.simps [simp del]

text \<open>
  \<open>decodeCocoRleString\<close>. Nothing in it throws, so its result is always a list of
  counts; the sum type lets the \<open>try\<close> and \<open>catch\<close> around its call be written.
\<close>

definition decodeCocoRleString :: "jsstring \<Rightarrow> js_error + int list" where
  "decodeCocoRleString rleString = Inr (decode_loop rleString 0 [])"

text \<open>
  The raw decoded values: the value of \<open>x\<close> at the exit of the inner loop, before
  the delta rule is applied, for each pass of the outer loop.
\<close>

function raw_loop :: "jsstring \<Rightarrow> nat \<Rightarrow> int list" where
  "raw_loop s p =
     (if p < length s then
        (case decode_unit s p 0 0 of (p', x) \<Rightarrow> sint x # raw_loop s p')
      else [])"
  by pat_completeness auto
termination
  apply (relation "measure (\<lambda>(s, p). length s - p)")
   apply simp
  subgoal for s p
    using decode_unit_advances [of p s 0 0] by (cases "decode_unit s p 0 0") auto
  done

declare raw_loop.simps [simp del]

definition raw_deltas :: "jsstring \<Rightarrow> int list" where
  "raw_deltas rleString = raw_loop rleString 0"

section \<open>The mask rasterizer and the centroid calculator\<close>

text \<open>
  \<open>COCORLE\<close> of the source: \<open>counts\<close> is an array of numbers or a string (the third
  constructor stands for any other value, which the source tests for), \<open>size\<close> is
  \<open>[height, width]\<close>. Run lengths are integers; a size is a pair of naturals.
\<close>

datatype rle_counts = CountsArray "int list" | CountsString jsstring | CountsOther

record COCORLE =
  rle_counts :: rle_counts
  rle_size :: "nat \<times> nat"

text \<open>
  The canvas the rasterizer returns, reduced to its size and the bytes of its image
  data: four bytes (red, green, blue, alpha) per pixel, rows first.
\<close>

record canvas =
  width :: nat
  height :: nat
  data :: "nat list"

text \<open>The three variables of the scan that both functions keep.\<close>

record scan =
  countsIndex :: nat
  runRemaining :: int
  currentValue :: nat

text \<open>
  The loop \<open>while (runRemaining === 0) { countsIndex++; ... }\<close>, which is the same in
  \<open>decodeRleToCanvas\<close> and \<open>calculateCentroid\<close>. At the end of the array it breaks
  and leaves \<open>runRemaining\<close> and \<open>currentValue\<close> as they are.
\<close>

function consume_runs :: "int list \<Rightarrow> scan \<Rightarrow> scan" where
  "consume_runs counts st =
     (if runRemaining st = 0 then
        (let ci = countsIndex st + 1 in
         if ci < length counts
         then consume_runs counts
                \<lparr>countsIndex = ci, runRemaining = counts ! ci, currentValue = ci mod 2\<rparr>
         else st\<lparr>countsIndex := ci\<rparr>)
      else st)"
  by pat_completeness auto
termination
  by (relation "measure (\<lambda>(counts, st). length counts - countsIndex st)") auto

declare consume_runs.simps [simp del]

text \<open>\<open>if (runRemaining > 0) runRemaining--\<close>, the last statement of both loop bodies.\<close>

definition count_down :: "scan \<Rightarrow> scan" where
  "count_down st = (if runRemaining st > 0 then st\<lparr>runRemaining := runRemaining st - 1\<rparr> else st)"

text \<open>
  The four stores of a foreground pixel into the image data, a \<open>Uint8ClampedArray\<close>:
  a colour component above 255 is stored as 255.
\<close>

definition put_pixel :: "nat \<times> nat \<times> nat \<Rightarrow> nat \<Rightarrow> nat list \<Rightarrow> nat list" where
  "put_pixel color idx d =
     (case color of (r, g, b) \<Rightarrow>
        d[idx := min r 255, idx + 1 := min g 255, idx + 2 := min b 255, idx + 3 := 210])"

text \<open>The body of the inner \<open>for\<close> loop of \<open>decodeRleToCanvas\<close>, at column x and row y.\<close>

definition raster_pixel ::
  "int list \<Rightarrow> nat \<times> nat \<times> nat \<Rightarrow> nat \<Rightarrow> nat \<Rightarrow> scan \<times> nat list \<Rightarrow> nat \<Rightarrow> scan \<times> nat list" where
  "raster_pixel counts color w x acc y =
     (case acc of (st, d) \<Rightarrow>
        let st1 = consume_runs counts st;
            d1 = (if currentValue st1 = 1 then put_pixel color ((y * w + x) * 4) d else d)
        in (count_down st1, d1))"

definition raster_loops ::
  "int list \<Rightarrow> nat \<times> nat \<times> nat \<Rightarrow> nat \<Rightarrow> nat \<Rightarrow> scan \<times> nat list \<Rightarrow> scan \<times> nat list" where
  "raster_loops counts color h w acc0 =
     foldl (\<lambda>acc x. foldl (raster_pixel counts color w x) acc [0..<h]) acc0 [0..<w]"

text \<open>
  The head of both functions, which takes \<open>rle.counts\<close> when it is an array, decodes
  it when it is a string, and returns null otherwise (\<open>None\<close>).
\<close>

definition normalize_counts :: "rle_counts \<Rightarrow> (js_error + int list) option" where
  "normalize_counts c =
     (case c of
        CountsArray cs \<Rightarrow> Some (Inr cs)
      | CountsString s \<Rightarrow> Some (decodeCocoRleString s)
      | CountsOther \<Rightarrow> None)"

text \<open>
  \<open>decodeRleToCanvas\<close>. Its first argument says whether \<open>canvas.getContext('2d')\<close>
  gives a context. \<open>ctx.createImageData(w, h)\<close> throws an IndexSizeError when one of
  its arguments is zero (HTML standard); otherwise the image data is \<open>4 * w * h\<close> bytes,
  all zero. The \<open>catch\<close> around the decoder returns null.
\<close>

definition decodeRleToCanvas ::
  "bool \<Rightarrow> COCORLE \<Rightarrow> nat \<times> nat \<times> nat \<Rightarrow> js_error + canvas option" where
  "decodeRleToCanvas has_ctx rle color =
     (case rle_size rle of (h, w) \<Rightarrow>
        (case normalize_counts (rle_counts rle) of
           None \<Rightarrow> Inr None
         | Some (Inl e) \<Rightarrow> Inr None
         | Some (Inr counts) \<Rightarrow>
             if \<not> has_ctx then Inr None
             else if w = 0 \<or> h = 0 then Inl IndexSizeError
             else if counts = [] then Inr None
             else
               let st0 = \<lparr>countsIndex = 0, runRemaining = counts ! 0, currentValue = 0\<rparr>;
                   d = snd (raster_loops counts color h w (st0, replicate (4 * w * h) 0))
               in Inr (Some \<lparr>width = w, height = h, data = d\<rparr>)))"

text \<open>The three sums of \<open>calculateCentroid\<close>, and the body of its inner loop.\<close>

record totals =
  totalX :: nat
  totalY :: nat
  totalPixels :: nat

definition centroid_pixel :: "int list \<Rightarrow> nat \<Rightarrow> scan \<times> totals \<Rightarrow> nat \<Rightarrow> scan \<times> totals" where
  "centroid_pixel counts x acc y =
     (case acc of (st, t) \<Rightarrow>
        let st1 = consume_runs counts st;
            t1 = (if currentValue st1 = 1
                  then \<lparr>totalX = totalX t + x, totalY = totalY t + y, totalPixels = totalPixels t + 1\<rparr>
                  else t)
        in (count_down st1, t1))"

definition centroid_loops :: "int list \<Rightarrow> nat \<Rightarrow> nat \<Rightarrow> scan \<times> totals \<Rightarrow> scan \<times> totals" where
  "centroid_loops counts h w acc0 =
     foldl (\<lambda>acc x. foldl (centroid_pixel counts x) acc [0..<h]) acc0 [0..<w]"

text \<open>
  \<open>calculateCentroid\<close>: null is \<open>None\<close>. The decoder is called outside any \<open>try\<close>,
  so an exception of it would leave the function. The two quotients are JavaScript
  number divisions of integers; they are modelled by the exact quotient.
\<close>

definition calculateCentroid :: "COCORLE \<Rightarrow> js_error + (rat \<times> rat) option" where
  "calculateCentroid rle =
     (case rle_size rle of (h, w) \<Rightarrow>
        (case normalize_counts (rle_counts rle) of
           None \<Rightarrow> Inr None
         | Some (Inl e) \<Rightarrow> Inl e
         | Some (Inr counts) \<Rightarrow>
             if counts = [] then Inr None
             else
               let st0 = \<lparr>countsIndex = 0, runRemaining = counts ! 0, currentValue = 0\<rparr>;
                   t = snd (centroid_loops counts h w
                              (st0, \<lparr>totalX = 0, totalY = 0, totalPixels = 0\<rparr>))
               in if totalPixels t = 0 then Inr None
                  else Inr (Some (of_nat (totalX t) / of_nat (totalPixels t),
                                  of_nat (totalY t) / of_nat (totalPixels t)))))"

section \<open>The annotation matcher: getBasename and handleImageUpload\<close>

text \<open>
  \<open>path.split(/[/\\]/)\<close>: the pieces between the separators, the slash (unit 47)
  and the backslash (unit 92); the empty string gives one empty piece.
\<close>

fun split_path :: "jsstring \<Rightarrow> jsstring list" where
  "split_path [] = [[]]"
| "split_path (c # cs) =
     (if c = 47 \<or> c = 92 then [] # split_path cs
      else (case split_path cs of [] \<Rightarrow> [[c]] | p # ps \<Rightarrow> (c # p) # ps))"

text \<open>
  \<open>trim()\<close> removes leading and trailing white space and line terminators
  (WhiteSpace and LineTerminator of ECMAScript).
\<close>

definition is_white_space :: "nat \<Rightarrow> bool" where
  "is_white_space u \<longleftrightarrow>
     u \<in> {9, 10, 11, 12, 13, 32, 160, 0x1680, 0x2028, 0x2029, 0x202F, 0x205F, 0x3000, 0xFEFF}
     \<or> (0x2000 \<le> u \<and> u \<le> 0x200A)"

definition trim :: "jsstring \<Rightarrow> jsstring" where
  "trim s = rev (dropWhile is_white_space (rev (dropWhile is_white_space s)))"

text \<open>
  \<open>s.lastIndexOf(c)\<close> for a one-character \<open>c\<close>: the search runs backwards from the
  end and returns the first index where the unit stands, or -1.
\<close>

fun last_index_before :: "jsstring \<Rightarrow> nat \<Rightarrow> nat \<Rightarrow> int" where
  "last_index_before s u 0 = - 1"
| "last_index_before s u (Suc n) = (if s ! n = u then int n else last_index_before s u n)"

definition lastIndexOf :: "jsstring \<Rightarrow> nat \<Rightarrow> int" where
  "lastIndexOf s u = last_index_before s u (length s)"

text \<open>
  \<open>s.substring(a, b)\<close>: both arguments are clamped to \<open>0 .. s.length\<close> and swapped
  when the first is the larger one.
\<close>

definition substring :: "jsstring \<Rightarrow> int \<Rightarrow> int \<Rightarrow> jsstring" where
  "substring s a b =
     (let a' = nat (min (max a 0) (int (length s)));
          b' = nat (min (max b 0) (int (length s)))
      in take (max a' b' - min a' b') (drop (min a' b') s))"

text \<open>\<open>a || b\<close> on strings: the empty string is the only falsy string.\<close>

definition or_else :: "jsstring \<Rightarrow> jsstring \<Rightarrow> jsstring" where
  "or_else a b = (if a \<noteq> [] then a else b)"

definition getBasename :: "jsstring \<Rightarrow> jsstring" where
  "getBasename path = trim (or_else (last (split_path path)) path)"

text \<open>
  The expression \<open>b.substring(0, b.lastIndexOf('.')) || b\<close>, which the handler applies
  to the uploaded name and to each record's base name. The dot is unit 46.
\<close>

definition name_no_ext :: "jsstring \<Rightarrow> jsstring" where
  "name_no_ext b = or_else (substring b 0 (lastIndexOf b 46)) b"

subsection \<open>The document and the state of the application\<close>

text \<open>
  An id read from JSON is a number or a string. The numbers that occur as ids are
  integers; a JavaScript number holds every integer up to \<open>2 ^ 53\<close> in absolute value
  exactly.
\<close>

datatype js_id = IdNum int | IdStr jsstring

record COCOImage =
  img_id :: js_id
  img_width :: nat
  img_height :: nat
  file_name :: jsstring

record COCOAnnotation =
  ann_id :: js_id
  image_id :: js_id
  category_id :: js_id

record COCOJson =
  images :: "COCOImage list"
  annotations :: "COCOAnnotation list"

datatype tab = Upload | Structure

text \<open>
  The state variables of \<open>App\<close> that \<open>handleImageUpload\<close> and \<open>currentAnnotations\<close>
  read or set. The uploaded file is kept by its name.
\<close>

record app_state =
  cocoData :: "COCOJson option"
  currentImageFile :: "jsstring option"
  matchedImageId :: "js_id option"
  activeTab :: tab
  selectedTreeImage :: "COCOImage option"
  error :: "jsstring option"

text \<open>\<open>xs.join(', ')\<close>.\<close>

fun join_comma :: "jsstring list \<Rightarrow> jsstring" where
  "join_comma [] = []"
| "join_comma [x] = x"
| "join_comma (x # y # ys) = x @ units '', '' @ join_comma (y # ys)"

text \<open>
  The message of the handler when no record matches; unit 34 is the double quote.
\<close>

definition not_found_message :: "jsstring \<Rightarrow> jsstring \<Rightarrow> jsstring" where
  "not_found_message uploadedBasename examples =
     units ''Image '' @ [34] @ uploadedBasename @ [34] @ units '' not found. Expected: '' @
     [34] @ examples @ [34] @ units ''...''"

text \<open>
  \<open>handleImageUpload\<close>, from the state before the upload and the name of the file to
  the state after it. \<open>toLowerCase\<close> is the host's \<open>String.prototype.toLowerCase\<close>, a
  parameter of the model.
\<close>

definition handleImageUpload ::
  "(jsstring \<Rightarrow> jsstring) \<Rightarrow> app_state \<Rightarrow> jsstring \<Rightarrow> app_state" where
  "handleImageUpload toLowerCase st0 file =
     (let st = st0\<lparr>error := None\<rparr> in
      case cocoData st of
        None \<Rightarrow> st\<lparr>error := Some (units ''Please upload annotations (JSON) first.'')\<rparr>
      | Some doc \<Rightarrow>
          let uploadedBasename = trim file;
              uploadedNameNoExt = name_no_ext uploadedBasename;
              matchedImage =
                find (\<lambda>img. toLowerCase (name_no_ext (getBasename (file_name img))) =
                             toLowerCase uploadedNameNoExt) (images doc)
          in case matchedImage of
               Some img \<Rightarrow>
                 st\<lparr>currentImageFile := Some file, matchedImageId := Some (img_id img),
                    activeTab := Upload\<rparr>
             | None \<Rightarrow>
                 let examples =
                       join_comma (map (\<lambda>i. getBasename (file_name i)) (take 3 (images doc)))
                 in st\<lparr>currentImageFile := None, matchedImageId := None,
                       error := Some (not_found_message uploadedBasename examples)\<rparr>)"

text \<open>On strings of ASCII characters \<open>toLowerCase\<close> is this function.\<close>

definition lower_ascii :: "jsstring \<Rightarrow> jsstring" where
  "lower_ascii s = map (\<lambda>u. if 65 \<le> u \<and> u \<le> 90 then u + 32 else u) s"

section \<open>The annotations of an image: currentAnnotations\<close>

text \<open>
  \<open>a == b\<close> on ids. Two numbers are equal when they are the same number, two strings
  when they are the same string; a string and a number are compared after the string is
  converted with ToNumber.

  ToNumber of a string: white space around it is dropped; the empty string is 0; a
  decimal integer literal (digits with an optional sign) of absolute value up to
  \<open>2 ^ 53\<close> is that integer. Any other string (a fraction, an exponent, a hexadecimal
  literal, a longer integer, something that is no number) is left to the parameter
  \<open>other\<close>, which gives the integer the host converts it to, or \<open>None\<close> when the
  result is not an integer.
\<close>

definition is_digit :: "nat \<Rightarrow> bool" where
  "is_digit u \<longleftrightarrow> 48 \<le> u \<and> u \<le> 57"

definition digits_value :: "jsstring \<Rightarrow> nat" where
  "digits_value ds = foldl (\<lambda>acc u. 10 * acc + (u - 48)) 0 ds"

definition all_digits :: "jsstring \<Rightarrow> bool" where
  "all_digits ds \<longleftrightarrow> ds \<noteq> [] \<and> list_all is_digit ds"

definition parse_decimal_integer :: "jsstring \<Rightarrow> int option" where
  "parse_decimal_integer t =
     (case t of
        [] \<Rightarrow> None
      | c # cs \<Rightarrow>
          if c = 45 then (if all_digits cs then Some (- int (digits_value cs)) else None)
          else if c = 43 then (if all_digits cs then Some (int (digits_value cs)) else None)
          else if all_digits t then Some (int (digits_value t))
          else None)"

definition StringToNumber :: "(jsstring \<Rightarrow> int option) \<Rightarrow> jsstring \<Rightarrow> int option" where
  "StringToNumber other s =
     (let t = trim s in
      if t = [] then Some 0
      else case parse_decimal_integer t of
             Some n \<Rightarrow> if \<bar>n\<bar> \<le> 2 ^ 53 then Some n else other t
           | None \<Rightarrow> other t)"

fun loose_eq :: "(jsstring \<Rightarrow> int option) \<Rightarrow> js_id \<Rightarrow> js_id \<Rightarrow> bool" where
  "loose_eq other (IdNum a) (IdNum b) \<longleftrightarrow> a = b"
| "loose_eq other (IdStr s) (IdStr t) \<longleftrightarrow> s = t"
| "loose_eq other (IdNum a) (IdStr t) \<longleftrightarrow> StringToNumber other t = Some a"
| "loose_eq other (IdStr s) (IdNum b) \<longleftrightarrow> StringToNumber other s = Some b"

text \<open>
  \<open>currentAnnotations\<close>: no document gives the empty list; the target id is
  \<open>matchedImageId\<close> in the upload tab and \<open>selectedTreeImage?.id\<close> otherwise; a null
  or undefined target gives the empty list.
\<close>

definition currentAnnotations ::
  "(jsstring \<Rightarrow> int option) \<Rightarrow> app_state \<Rightarrow> COCOAnnotation list" where
  "currentAnnotations other st =
     (case cocoData st of
        None \<Rightarrow> []
      | Some doc \<Rightarrow>
          let targetId = (if activeTab st = Upload then matchedImageId st
                          else map_option img_id (selectedTreeImage st))
          in case targetId of
               None \<Rightarrow> []
             | Some t \<Rightarrow> filter (\<lambda>ann. loose_eq other (image_id ann) t) (annotations doc))"

section \<open>The hierarchy indexer: buildFileTree and the order FileTree shows\<close>

text \<open>
  \<open>TreeNode\<close> of the source. \<open>children\<close> is optional: \<open>None\<close> is undefined, and an
  object is the list of its own properties in the order in which they were created.
\<close>

datatype node_type = Folder | File

datatype TreeNode =
  TreeNode (name: jsstring) (node_type: node_type)
    (children: "(jsstring \<times> TreeNode) list option") (node_data: "COCOImage option")
    (node_path: jsstring)

definition with_children :: "TreeNode \<Rightarrow> (jsstring \<times> TreeNode) list \<Rightarrow> TreeNode" where
  "with_children n ks = TreeNode (name n) (node_type n) (Some ks) (node_data n) (node_path n)"

text \<open>
  \<open>obj[key] = v\<close> on the own properties: an existing property keeps its place, a new
  one is added at the end. \<open>map_of\<close> reads an own property.
\<close>

fun set_prop :: "jsstring \<Rightarrow> 'a \<Rightarrow> (jsstring \<times> 'a) list \<Rightarrow> (jsstring \<times> 'a) list" where
  "set_prop k v [] = [(k, v)]"
| "set_prop k v (p # ps) = (if fst p = k then (k, v) # ps else p # set_prop k v ps)"

text \<open>
  A children object is written \<open>{}\<close>, so its prototype is \<open>Object.prototype\<close>, and
  \<open>current.children[part]\<close> reads a property of the prototype when \<open>part\<close> is no own
  property. These are the names that \<open>Object.prototype\<close> gives a function under, which
  is a truthy value; \<open>__proto__\<close>, its one other property, is treated apart.
\<close>

definition inherited_names :: "jsstring list" where
  "inherited_names =
     map units [''constructor'', ''hasOwnProperty'', ''isPrototypeOf'', ''propertyIsEnumerable'',
       ''toLocaleString'', ''toString'', ''valueOf'', ''__defineGetter__'', ''__defineSetter__'',
       ''__lookupGetter__'', ''__lookupSetter__'']"

text \<open>
  The inner \<open>parts.forEach\<close> of \<open>buildFileTree\<close>, from the part at hand on: \<open>current\<close>
  is the node the walk stands at, and the result is that node after the walk. The last
  part stores a file node. Another part steps into \<open>current.children[part]\<close>, after
  storing a folder node there if the value read is falsy. When the value read is a
  function of \<open>Object.prototype\<close>, no node is stored and the walk goes on at that
  function: the rest of it leaves the tree as it is.
\<close>

fun insert_parts :: "COCOImage \<Rightarrow> jsstring \<Rightarrow> jsstring list \<Rightarrow> TreeNode \<Rightarrow> TreeNode" where
  "insert_parts img currentPath [] current = current"
| "insert_parts img currentPath (part # rest) current =
     (let currentPath' = (if currentPath \<noteq> [] then currentPath @ [47] @ part else part);
          kids = (case children current of None \<Rightarrow> [] | Some ks \<Rightarrow> ks)
      in if rest = [] then
           with_children current
             (set_prop part (TreeNode part File None (Some img) currentPath') kids)
         else
           (case map_of kids part of
              Some child \<Rightarrow>
                with_children current
                  (set_prop part (insert_parts img currentPath' rest child) kids)
            | None \<Rightarrow>
                if part \<in> set inherited_names then with_children current kids
                else
                  with_children current
                    (set_prop part
                       (insert_parts img currentPath' rest
                          (TreeNode part Folder (Some []) None currentPath'))
                       kids)))"

text \<open>
  \<open>buildFileTree\<close>. A path segment \<open>__proto__\<close> makes the walk read or replace the
  prototype of a children object; the model does not follow that, and gives \<open>None\<close>
  for a list of images with such a segment.
\<close>

definition root_node :: TreeNode where
  "root_node = TreeNode (units ''root'') Folder (Some []) None []"

definition has_proto_segment :: "COCOImage list \<Rightarrow> bool" where
  "has_proto_segment imgs \<longleftrightarrow>
     (\<exists>img\<in>set imgs. units ''__proto__'' \<in> set (split_path (file_name img)))"

definition buildFileTree :: "COCOImage list \<Rightarrow> TreeNode option" where
  "buildFileTree imgs =
     (if has_proto_segment imgs then None
      else Some (foldl (\<lambda>root img. insert_parts img [] (split_path (file_name img)) root)
                   root_node imgs))"

subsection \<open>The order of the children in FileTree\<close>

text \<open>
  \<open>Object.entries\<close> lists the own properties whose key is an array index (a decimal
  numeral below \<open>2 ^ 32 - 1\<close> without leading zero) first, by their number, and then
  the others in the order of their creation.
\<close>

definition is_array_index :: "jsstring \<Rightarrow> bool" where
  "is_array_index k \<longleftrightarrow>
     all_digits k \<and> (k = [48] \<or> hd k \<noteq> 48) \<and> digits_value k < 2 ^ 32 - 1"

definition object_entries :: "(jsstring \<times> 'a) list \<Rightarrow> (jsstring \<times> 'a) list" where
  "object_entries props =
     sort_key (\<lambda>p. digits_value (fst p)) (filter (\<lambda>p. is_array_index (fst p)) props) @
     filter (\<lambda>p. \<not> is_array_index (fst p)) props"

text \<open>
  \<open>Array.prototype.sort\<close> with a comparison function is a stable sort, and for a
  consistent comparison function every stable sort gives the same array. This one puts
  each element, from the last to the first, before the first element that it does not
  come after.
\<close>

fun insert_by :: "('a \<Rightarrow> 'a \<Rightarrow> int) \<Rightarrow> 'a \<Rightarrow> 'a list \<Rightarrow> 'a list" where
  "insert_by cmp x [] = [x]"
| "insert_by cmp x (y # ys) = (if cmp x y \<le> 0 then x # y # ys else y # insert_by cmp x ys)"

definition array_sort :: "('a \<Rightarrow> 'a \<Rightarrow> int) \<Rightarrow> 'a list \<Rightarrow> 'a list" where
  "array_sort cmp xs = foldr (insert_by cmp) xs []"

text \<open>
  The comparison function of \<open>FileTree\<close>; \<open>localeCompare\<close> is the host's
  \<open>String.prototype.localeCompare\<close>, a parameter of the model.
\<close>

definition compare_entries ::
  "(jsstring \<Rightarrow> jsstring \<Rightarrow> int) \<Rightarrow> jsstring \<times> TreeNode \<Rightarrow> jsstring \<times> TreeNode \<Rightarrow> int" where
  "compare_entries localeCompare a b =
     (if node_type (snd a) \<noteq> node_type (snd b)
      then (if node_type (snd a) = Folder then - 1 else 1)
      else localeCompare (fst a) (fst b))"

text \<open>
  The entries of the children that \<open>FileTree\<close> renders below a node when the node is
  open, in the order in which it renders them: none for a file node or a node without
  children.
\<close>

definition shown_entries ::
  "(jsstring \<Rightarrow> jsstring \<Rightarrow> int) \<Rightarrow> TreeNode \<Rightarrow> (jsstring \<times> TreeNode) list" where
  "shown_entries localeCompare node =
     (if node_type node = File then []
      else case children node of
             None \<Rightarrow> []
           | Some props \<Rightarrow> array_sort (compare_entries localeCompare) (object_entries props))"

section \<open>The notions the properties are stated with\<close>

text \<open>
  The foreground pixels of a canvas are those whose alpha byte is 210, the value the
  rasterizer stores; they are listed as (x, y) in the order of the image data. The
  centroid of a bitmap is the mean of their coordinates.
\<close>

definition foreground_pixels :: "canvas \<Rightarrow> (nat \<times> nat) list" where
  "foreground_pixels cv =
     map (\<lambda>i. (i mod width cv, i div width cv))
       (filter (\<lambda>i. data cv ! (4 * i + 3) = 210) [0..<width cv * height cv])"

definition bitmap_centroid :: "canvas \<Rightarrow> (rat \<times> rat) option" where
  "bitmap_centroid cv =
     (let fg = foreground_pixels cv in
      if fg = [] then None
      else Some (of_nat (sum_list (map fst fg)) / of_nat (length fg),
                 of_nat (sum_list (map snd fg)) / of_nat (length fg)))"

text \<open>The number of foreground pixels of a canvas, and the sum of the run lengths at odd indices.\<close>

definition odd_index_sum :: "int list \<Rightarrow> int" where
  "odd_index_sum S = sum_list (map (\<lambda>i. S ! i) (filter odd [0..<length S]))"

definition foreground_count :: "canvas \<Rightarrow> nat" where
  "foreground_count cv = length (foreground_pixels cv)"

text \<open>
  A string ends in the middle of a unit when its last character is a unit with the
  continuation bit \<open>0x20\<close> set: the decoder consumes it and no character remains.
\<close>

definition ends_mid_unit :: "jsstring \<Rightarrow> bool" where
  "ends_mid_unit s \<longleftrightarrow> s \<noteq> [] \<and> toInt32 (Some (int (last s) - 48)) AND 0x20 \<noteq> 0"

text \<open>The state in which both scans start: \<open>countsIndex = 0\<close>, \<open>runRemaining = counts[0]\<close>.\<close>

definition start_scan :: "int list \<Rightarrow> scan" where
  "start_scan counts = \<lparr>countsIndex = 0, runRemaining = counts ! 0, currentValue = 0\<rparr>"

text \<open>
  The mask an RLE stands for: its runs one after the other, a run at an even index
  background and a run at an odd index foreground. Its foreground pixels in an image
  of height \<open>h\<close> and width \<open>w\<close>: the pixels, columns first, whose place in the mask
  is foreground; a pixel past the end of the mask is background.
\<close>

fun runs_from :: "nat \<Rightarrow> int list \<Rightarrow> bool list" where
  "runs_from k [] = []"
| "runs_from k (r # rs) = replicate (nat r) (odd k) @ runs_from (Suc k) rs"

definition rle_mask :: "int list \<Rightarrow> bool list" where
  "rle_mask counts = runs_from 0 counts"

definition rle_foreground :: "int list \<Rightarrow> nat \<Rightarrow> nat \<Rightarrow> (nat \<times> nat) list" where
  "rle_foreground counts h w =
     map fst (filter snd (zip (List.product [0..<w] [0..<h]) (rle_mask counts)))"

subsection \<open>Names, as the matcher's property speaks of them\<close>

text \<open>
  The final path segment of a file name, trimmed; the part of a name before its last
  dot; a name with its extension stripped as the property is stated (the part before
  the last dot, the whole name if there is no dot).
\<close>

definition final_segment :: "jsstring \<Rightarrow> jsstring" where
  "final_segment path = trim (last (split_path path))"

definition before_last_dot :: "jsstring \<Rightarrow> jsstring" where
  "before_last_dot s = rev (tl (dropWhile (\<lambda>u. u \<noteq> 46) (rev s)))"

definition stripped_as_stated :: "jsstring \<Rightarrow> jsstring" where
  "stripped_as_stated s = (if 46 \<in> set s then before_last_dot s else s)"

definition stripped :: "jsstring \<Rightarrow> jsstring" where
  "stripped s = (if 46 \<notin> set s \<or> before_last_dot s = [] then s else before_last_dot s)"

text \<open>
  The base name and the stripped name with the two cases the source adds: a file name
  whose final segment is empty is taken whole, and a name with nothing before its last
  dot is taken whole.
\<close>

definition base_name :: "jsstring \<Rightarrow> jsstring" where
  "base_name path = (if last (split_path path) = [] then trim path else final_segment path)"

subsection \<open>The string representation of a number\<close>

text \<open>
  The string JavaScript writes for an integer (\<open>String(n)\<close>, for integers below
  \<open>10 ^ 21\<close> in absolute value): its decimal digits, after a minus sign when it is
  negative.
\<close>

fun digits_of :: "nat \<Rightarrow> jsstring" where
  "digits_of n = (if n < 10 then [48 + n] else digits_of (n div 10) @ [48 + n mod 10])"

definition number_to_string :: "int \<Rightarrow> jsstring" where
  "number_to_string n = (if n < 0 then 45 # digits_of (nat (- n)) else digits_of (nat n))"

subsection \<open>Comparison functions\<close>

text \<open>
  A comparison function is consistent when the relation "a does not come after b"
  (\<open>cmp a b \<le> 0\<close>) is total and transitive, which \<open>Array.prototype.sort\<close> asks of
  its argument. The case-sensitive lexicographic comparison of two strings compares
  them unit by unit.
\<close>

definition consistent_comparator :: "('a \<Rightarrow> 'a \<Rightarrow> int) \<Rightarrow> bool" where
  "consistent_comparator cmp \<longleftrightarrow>
     (\<forall>a b. cmp a b \<le> 0 \<or> cmp b a \<le> 0) \<and>
     (\<forall>a b c. cmp a b \<le> 0 \<and> cmp b c \<le> 0 \<longrightarrow> cmp a c \<le> 0)"

fun compare_units :: "jsstring \<Rightarrow> jsstring \<Rightarrow> int" where
  "compare_units [] [] = 0"
| "compare_units [] (y # ys) = - 1"
| "compare_units (x # xs) [] = 1"
| "compare_units (x # xs) (y # ys) =
     (if x < y then - 1 else if y < x then 1 else compare_units xs ys)"

text \<open>
  A comparison as the hosts in use make it on names of ASCII letters: the letters are
  compared without regard to their case first, and where that decides nothing, a
  lower-case letter comes before the same letter in upper case. \<open>lower_ascii\<close> is the
  lower-case form of such a name.
\<close>

definition compare_folded :: "jsstring \<Rightarrow> jsstring \<Rightarrow> int" where
  "compare_folded a b =
     (let c = compare_units (lower_ascii a) (lower_ascii b)
      in if c \<noteq> 0 then c else compare_units b a)"

text \<open>An image record with a given file name, for the examples.\<close>

definition image_named :: "int \<Rightarrow> string \<Rightarrow> COCOImage" where
  "image_named i f = \<lparr>img_id = IdNum i, img_width = 1, img_height = 1, file_name = units f\<rparr>"

text \<open>
  The order of the claim on a list of entries (name, node): every folder stands before
  every file, and two entries of the same kind stand in the order of \<open>cmp\<close> on their
  names.
\<close>

definition ordered_siblings ::
  "(jsstring \<Rightarrow> jsstring \<Rightarrow> int) \<Rightarrow> (jsstring \<times> TreeNode) list \<Rightarrow> bool" where
  "ordered_siblings cmp es \<longleftrightarrow>
     (\<forall>i j. i < j \<and> j < length es \<longrightarrow>
        (node_type (snd (es ! j)) = Folder \<longrightarrow> node_type (snd (es ! i)) = Folder) \<and>
        (node_type (snd (es ! i)) = node_type (snd (es ! j)) \<longrightarrow>
           cmp (fst (es ! i)) (fst (es ! j)) \<le> 0))"

section \<open>Auxiliary notions of the proofs about the scan\<close>

text \<open>
  One step of the scan: whether the pixel at hand is foreground, and the state after it.
  \<open>scan_flags\<close> lists the answers for the next \<open>n\<close> pixels; \<open>painted\<close> keeps the
  pixels of a list whose flag is set; \<open>scan_pixels\<close> are the pixels that a scan of an
  image of height \<open>h\<close> and width \<open>w\<close> finds foreground, in the order of the scan
  (columns first).
\<close>

definition scan_fg :: "int list \<Rightarrow> scan \<Rightarrow> bool" where
  "scan_fg counts st = (currentValue (consume_runs counts st) = 1)"

definition scan_step :: "int list \<Rightarrow> scan \<Rightarrow> scan" where
  "scan_step counts st = count_down (consume_runs counts st)"

fun scan_flags :: "int list \<Rightarrow> scan \<Rightarrow> nat \<Rightarrow> bool list" where
  "scan_flags counts st 0 = []"
| "scan_flags counts st (Suc n) = scan_fg counts st # scan_flags counts (scan_step counts st) n"

definition painted :: "(nat \<times> nat) list \<Rightarrow> bool list \<Rightarrow> (nat \<times> nat) list" where
  "painted ps fl = map fst (filter snd (zip ps fl))"

definition scan_pixels :: "int list \<Rightarrow> nat \<Rightarrow> nat \<Rightarrow> (nat \<times> nat) list" where
  "scan_pixels counts h w =
     painted (List.product [0..<w] [0..<h]) (scan_flags counts (start_scan counts) (w * h))"

text \<open>
  For run lengths that fit the image: the sum of the run lengths at odd positions from
  position \<open>k\<close> on, the states the scan can be in, the number of pixels the runs
  still hold, and the number of foreground pixels among them.
\<close>

fun odd_from :: "nat \<Rightarrow> int list \<Rightarrow> int" where
  "odd_from k [] = 0"
| "odd_from k (r # rs) = (if odd k then r else 0) + odd_from (Suc k) rs"

definition scan_ok :: "int list \<Rightarrow> scan \<Rightarrow> bool" where
  "scan_ok counts st \<longleftrightarrow>
     countsIndex st < length counts \<and> 0 \<le> runRemaining st \<and> currentValue st = countsIndex st mod 2"

definition rest :: "int list \<Rightarrow> scan \<Rightarrow> int" where
  "rest counts st = runRemaining st + sum_list (drop (Suc (countsIndex st)) counts)"

definition fg_rest :: "int list \<Rightarrow> scan \<Rightarrow> int" where
  "fg_rest counts st =
     (if odd (countsIndex st) then runRemaining st else 0) +
     odd_from (Suc (countsIndex st)) (drop (Suc (countsIndex st)) counts)"

text \<open>The part of the mask that the runs still hold in a state of the scan.\<close>

definition mask_rest :: "int list \<Rightarrow> scan \<Rightarrow> bool list" where
  "mask_rest counts st =
     replicate (nat (runRemaining st)) (odd (countsIndex st)) @
     runs_from (Suc (countsIndex st)) (drop (Suc (countsIndex st)) counts)"

section \<open>Properties of the varint decoder\<close>

text \<open>
  The loop invariant of the outer loop: what was stored stays, one value is stored per
  raw value, and the delta rule \<open>if (m > 2) x += counts[m - 2]\<close> holds at each new
  index.
\<close>

lemma decode_loop_delta:
  "length (decode_loop s p counts) = length counts + length (raw_loop s p) \<and>
   (\<forall>i<length counts. decode_loop s p counts ! i = counts ! i) \<and>
   (\<forall>i<length (raw_loop s p).
      decode_loop s p counts ! (length counts + i) =
        (if length counts + i > 2
         then raw_loop s p ! i + decode_loop s p counts ! (length counts + i - 2)
         else raw_loop s p ! i))"
proof (induction s p counts rule: decode_loop.induct)
  case (1 s p counts)
  show ?case
  proof (cases "p < length s")
    case False
    then show ?thesis
      by (simp add: decode_loop.simps [of s p] raw_loop.simps [of s p])
  next
    case True
    obtain p' x where u: "decode_unit s p 0 0 = (p', x)"
      by (cases "decode_unit s p 0 0")
    define x' where "x' = (if length counts > 2 then sint x + counts ! (length counts - 2) else sint x)"
    define out where "out = decode_loop s p' (counts @ [x'])"
    have out: "decode_loop s p counts = out"
      using True u by (simp add: decode_loop.simps [of s p] out_def x'_def Let_def)
    have raw: "raw_loop s p = sint x # raw_loop s p'"
      using True u by (simp add: raw_loop.simps [of s p])
    from "1.IH" [OF True u [symmetric] refl refl]
    have len: "length out = Suc (length counts) + length (raw_loop s p')"
      and old: "\<forall>i<Suc (length counts). out ! i = (counts @ [x']) ! i"
      and new: "\<forall>i<length (raw_loop s p').
          out ! (Suc (length counts) + i) =
            (if Suc (length counts) + i > 2
             then raw_loop s p' ! i + out ! (Suc (length counts) + i - 2)
             else raw_loop s p' ! i)"
      by (simp_all add: out_def x'_def)
    have a: "length out = length counts + length (raw_loop s p)"
      using len raw by simp
    have b: "\<forall>i<length counts. out ! i = counts ! i"
      using old by (simp add: nth_append)
    have c: "out ! (length counts + i) =
        (if length counts + i > 2
         then raw_loop s p ! i + out ! (length counts + i - 2)
         else raw_loop s p ! i)" if i: "i < length (raw_loop s p)" for i
    proof (cases i)
      case 0
      have "out ! length counts = x'"
        using old by (simp add: nth_append)
      moreover have "out ! (length counts - 2) = counts ! (length counts - 2)" if "length counts > 2"
        using b that by simp
      ultimately show ?thesis
        using 0 raw by (simp add: x'_def)
    next
      case (Suc j)
      with i raw have "j < length (raw_loop s p')"
        by simp
      with new have "out ! (Suc (length counts) + j) =
            (if Suc (length counts) + j > 2
             then raw_loop s p' ! j + out ! (Suc (length counts) + j - 2)
             else raw_loop s p' ! j)"
        by blast
      then show ?thesis
        using Suc raw by simp
    qed
    show ?thesis
      unfolding out using a b c by blast
  qed
qed

text \<open>
  Reading past the end gives NaN, which the bitwise operators take as 0: the decoder
  reads a string as it reads the string followed by the character \<open>'0'\<close> (unit 48),
  as long as it does not start a new value at that character.
\<close>

lemma charCodeAt_append:
  "p \<le> length s \<Longrightarrow>
   toInt32 (map_option (\<lambda>u. u - 48) (charCodeAt (s @ [48]) p)) =
   toInt32 (map_option (\<lambda>u. u - 48) (charCodeAt s p))"
  by (cases "p < length s") (simp_all add: charCodeAt_def nth_append toInt32_def)

lemma decode_unit_append:
  "p \<le> length s \<Longrightarrow> decode_unit (s @ [48]) p k x = decode_unit s p k x"
proof (induction s p k x rule: decode_unit.induct)
  case (1 s p k x)
  let ?c = "toInt32 (map_option (\<lambda>u. u - 48) (charCodeAt s p))"
  have c: "toInt32 (map_option (\<lambda>u. u - 48) (charCodeAt (s @ [48]) p)) = ?c"
    using "1.prems" by (rule charCodeAt_append)
  show ?case
  proof (cases "?c AND 0x20 = 0")
    case True
    then show ?thesis
      by (simp add: decode_unit.simps [of s p] decode_unit.simps [of "s @ [48]" p] c Let_def)
  next
    case False
    have "p < length s"
    proof (rule ccontr)
      assume "\<not> p < length s"
      with False show False
        by (simp add: charCodeAt_def toInt32_def)
    qed
    then have "Suc p \<le> length s"
      by simp
    with "1.IH" [OF refl refl refl refl refl refl] False
    have "decode_unit (s @ [48]) (Suc p) (Suc k) (x OR shl (?c AND 0x1f) (5 * k)) =
        decode_unit s (Suc p) (Suc k) (x OR shl (?c AND 0x1f) (5 * k))"
      by simp
    with False show ?thesis
      by (simp add: decode_unit.simps [of s p] decode_unit.simps [of "s @ [48]" p] c Let_def)
  qed
qed

lemma decode_unit_not_at_end:
  "ends_mid_unit s \<Longrightarrow> p < length s \<Longrightarrow> fst (decode_unit s p k x) \<noteq> length s"
proof (induction s p k x rule: decode_unit.induct)
  case (1 s p k x)
  let ?c = "toInt32 (map_option (\<lambda>u. u - 48) (charCodeAt s p))"
  show ?case
  proof (cases "?c AND 0x20 = 0")
    case True
    have "p \<noteq> length s - 1"
    proof
      assume "p = length s - 1"
      with "1.prems" have "s ! p = last s"
        by (simp add: last_conv_nth ends_mid_unit_def)
      with "1.prems" True show False
        by (simp add: charCodeAt_def ends_mid_unit_def)
    qed
    with True "1.prems" show ?thesis
      by (simp add: decode_unit.simps [of s p] Let_def)
  next
    case False
    show ?thesis
    proof (cases "Suc p < length s")
      case True
      with "1.IH" [OF refl refl refl refl refl refl] False "1.prems"(1)
      have "fst (decode_unit s (Suc p) (Suc k) (x OR shl (?c AND 0x1f) (5 * k))) \<noteq> length s"
        by simp
      with False show ?thesis
        by (simp add: decode_unit.simps [of s p] Let_def)
    next
      case F: False
      have "length s < fst (decode_unit s (Suc p) (Suc k) (x OR shl (?c AND 0x1f) (5 * k)))"
        using decode_unit_advances [of "Suc p" s "Suc k" "x OR shl (?c AND 0x1f) (5 * k)"] F "1.prems"(2)
        by linarith
      with False show ?thesis
        by (simp add: decode_unit.simps [of s p] Let_def)
    qed
  qed
qed

lemma decode_loop_append:
  "ends_mid_unit s \<Longrightarrow> p \<noteq> length s \<Longrightarrow>
   decode_loop (s @ [48]) p counts = decode_loop s p counts"
proof (induction s p counts rule: decode_loop.induct)
  case (1 s p counts)
  show ?case
  proof (cases "p < length s")
    case False
    with "1.prems" show ?thesis
      by (simp add: decode_loop.simps [of s p] decode_loop.simps [of "s @ [48]" p])
  next
    case True
    obtain p' x where u: "decode_unit s p 0 0 = (p', x)"
      by (cases "decode_unit s p 0 0")
    have u': "decode_unit (s @ [48]) p 0 0 = (p', x)"
      using True u by (simp add: decode_unit_append)
    have "p' \<noteq> length s"
      using decode_unit_not_at_end [OF "1.prems"(1) True, of 0 0] u by simp
    with "1.IH" [OF True u [symmetric] refl refl "1.prems"(1)] True u u' show ?thesis
      by (simp add: decode_loop.simps [of s p] decode_loop.simps [of "s @ [48]" p] Let_def)
  qed
qed

lemma decode_truncated:
  assumes "ends_mid_unit s"
  shows "decodeCocoRleString s = decodeCocoRleString (s @ [48])"
proof -
  from assms have "0 \<noteq> length s"
    by (auto simp: ends_mid_unit_def)
  with decode_loop_append [OF assms, of 0 "[]"] show ?thesis
    by (simp add: decodeCocoRleString_def)
qed

section \<open>Properties of the scan\<close>

text \<open>
  Both loop nests visit the pixels in the same order and take the same steps of the
  scan: whether a pixel is foreground, and the state after it, depend on the state
  before it alone.
\<close>

lemma length_scan_flags [simp]: "length (scan_flags counts st n) = n"
  by (induction n arbitrary: st) auto

lemma painted_Cons [simp]:
  "painted (p # ps) (b # fl) = (if b then p # painted ps fl else painted ps fl)"
  by (simp add: painted_def)

lemma painted_Nil [simp]: "painted [] fl = []"
  by (simp add: painted_def)

lemma foldl_product:
  "foldl (\<lambda>acc x. foldl (f x) acc ys) acc xs =
   foldl (\<lambda>acc p. f (fst p) acc (snd p)) acc (List.product xs ys)"
proof (induction xs arbitrary: acc)
  case Nil
  show ?case by simp
next
  case (Cons x xs)
  have "foldl (\<lambda>acc p. f (fst p) acc (snd p)) acc (map (Pair x) ys) = foldl (f x) acc ys"
    by (simp add: foldl_map)
  with Cons show ?case
    by simp
qed

lemma raster_fold:
  "foldl (\<lambda>acc p. raster_pixel counts color w (fst p) acc (snd p)) (st, d) ps =
   (foldl (\<lambda>s p. scan_step counts s) st ps,
    foldl (\<lambda>d p. put_pixel color ((snd p * w + fst p) * 4) d) d
      (painted ps (scan_flags counts st (length ps))))"
proof (induction ps arbitrary: st d)
  case Nil
  show ?case by simp
next
  case (Cons p ps)
  show ?case
    by (simp add: raster_pixel_def [of counts color w "fst p" "(st, d)" "snd p"]
        Let_def scan_step_def scan_fg_def Cons)
qed

lemma centroid_fold:
  "foldl (\<lambda>acc p. centroid_pixel counts (fst p) acc (snd p)) (st, t) ps =
   (foldl (\<lambda>s p. scan_step counts s) st ps,
    \<lparr>totalX = totalX t + sum_list (map fst (painted ps (scan_flags counts st (length ps)))),
     totalY = totalY t + sum_list (map snd (painted ps (scan_flags counts st (length ps)))),
     totalPixels = totalPixels t + length (painted ps (scan_flags counts st (length ps)))\<rparr>)"
proof (induction ps arbitrary: st t)
  case Nil
  show ?case by simp
next
  case (Cons p ps)
  show ?case
    by (simp add: centroid_pixel_def [of counts "fst p" "(st, t)" "snd p"]
        Let_def scan_step_def scan_fg_def Cons)
qed

lemma length_put_pixel [simp]: "length (put_pixel color idx d) = length d"
  by (cases color) (simp add: put_pixel_def)

lemma put_pixel_alpha:
  assumes "4 * q + 3 < length d"
  shows "put_pixel color (q * 4) d ! (4 * i + 3) = (if i = q then 210 else d ! (4 * i + 3))"
proof (cases color)
  case (fields r g b)
  have ne: "4 * i + 3 \<noteq> q * 4" "4 * i + 3 \<noteq> q * 4 + 1" "4 * i + 3 \<noteq> q * 4 + 2"
    by presburger+
  have eq: "4 * i + 3 = q * 4 + 3 \<longleftrightarrow> i = q"
    by presburger
  show ?thesis
  proof (cases "i = q")
    case True
    with assms show ?thesis
      by (simp add: put_pixel_def fields mult.commute)
  next
    case False
    with eq have "4 * i + 3 \<noteq> q * 4 + 3"
      by simp
    with ne False show ?thesis
      by (simp add: put_pixel_def fields)
  qed
qed

lemma length_paint [simp]:
  "length (foldl (\<lambda>d p. put_pixel color ((snd p * w + fst p) * 4) d) d fgs) = length d"
  by (induction fgs arbitrary: d) auto

lemma painted_alpha:
  assumes "\<forall>p\<in>set fgs. snd p * w + fst p < n" and "length d = 4 * n" and "i < n"
  shows "foldl (\<lambda>d p. put_pixel color ((snd p * w + fst p) * 4) d) d fgs ! (4 * i + 3) = 210 \<longleftrightarrow>
         i \<in> (\<lambda>p. snd p * w + fst p) ` set fgs \<or> d ! (4 * i + 3) = 210"
  using assms
proof (induction fgs arbitrary: d)
  case Nil
  show ?case by simp
next
  case (Cons p fgs)
  let ?q = "snd p * w + fst p"
  have q: "4 * ?q + 3 < length d"
    using Cons.prems by simp
  have "put_pixel color (?q * 4) d ! (4 * i + 3) = 210 \<longleftrightarrow> i = ?q \<or> d ! (4 * i + 3) = 210"
    by (simp only: put_pixel_alpha [OF q]) auto
  moreover have "foldl (\<lambda>d p. put_pixel color ((snd p * w + fst p) * 4) d)
        (put_pixel color (?q * 4) d) fgs ! (4 * i + 3) = 210 \<longleftrightarrow>
      i \<in> (\<lambda>p. snd p * w + fst p) ` set fgs \<or> put_pixel color (?q * 4) d ! (4 * i + 3) = 210"
    using Cons.prems by (intro Cons.IH) simp_all
  ultimately show ?case
    by auto
qed

lemma painted_subset: "set (painted ps fl) \<subseteq> set ps"
  by (auto simp: painted_def dest: set_zip_leftD)

lemma painted_distinct: "distinct ps \<Longrightarrow> distinct (painted ps fl)"
proof (induction ps arbitrary: fl)
  case Nil
  show ?case by simp
next
  case (Cons p ps)
  show ?case
  proof (cases fl)
    case Nil
    then show ?thesis by (simp add: painted_def)
  next
    case (Cons b fl')
    with Cons.prems Cons.IH [of fl'] painted_subset [of ps fl'] show ?thesis
      by auto
  qed
qed

lemma length_painted: "length fl = length ps \<Longrightarrow> length (painted ps fl) = length (filter id fl)"
proof (induction ps arbitrary: fl)
  case Nil
  then show ?case by simp
next
  case (Cons p ps)
  then show ?case
    by (cases fl) auto
qed

text \<open>The row-major index of a pixel in range determines the pixel.\<close>

lemma index_in_range: "x < w \<Longrightarrow> y < h \<Longrightarrow> y * w + x < w * (h::nat)"
proof -
  assume x: "x < w" and y: "y < h"
  have "y * w + x < y * w + w"
    using x by simp
  also have "\<dots> = Suc y * w"
    by simp
  also have "\<dots> \<le> h * w"
    using y by (intro mult_le_mono1) simp
  finally show ?thesis
    by (simp add: mult.commute)
qed

lemma index_inj:
  "inj_on (\<lambda>p. snd p * w + fst p) {p. fst p < w \<and> snd p < (h::nat)}"
proof (rule inj_onI)
  fix p q :: "nat \<times> nat"
  assume p: "p \<in> {p. fst p < w \<and> snd p < h}" and q: "q \<in> {p. fst p < w \<and> snd p < h}"
    and e: "snd p * w + fst p = snd q * w + fst q"
  from p q have "(snd p * w + fst p) mod w = fst p" "(snd q * w + fst q) mod w = fst q"
    "(snd p * w + fst p) div w = snd p" "(snd q * w + fst q) div w = snd q"
    by simp_all
  with e show "p = q"
    by (metis prod.expand)
qed

lemma scan_pixels_range: "set (scan_pixels counts h w) \<subseteq> {p. fst p < w \<and> snd p < h}"
  using painted_subset [of "List.product [0..<w] [0..<h]" "scan_flags counts (start_scan counts) (w * h)"]
  by (auto simp: scan_pixels_def)

lemma scan_pixels_distinct: "distinct (scan_pixels counts h w)"
  by (simp add: scan_pixels_def painted_distinct distinct_product)

lemma raster_loops_data:
  "snd (raster_loops counts color h w (start_scan counts, d)) =
   foldl (\<lambda>d p. put_pixel color ((snd p * w + fst p) * 4) d) d (scan_pixels counts h w)"
  by (simp add: raster_loops_def foldl_product raster_fold scan_pixels_def)

lemma centroid_loops_totals:
  "snd (centroid_loops counts h w (start_scan counts, \<lparr>totalX = 0, totalY = 0, totalPixels = 0\<rparr>)) =
   \<lparr>totalX = sum_list (map fst (scan_pixels counts h w)),
    totalY = sum_list (map snd (scan_pixels counts h w)),
    totalPixels = length (scan_pixels counts h w)\<rparr>"
  by (simp add: centroid_loops_def foldl_product centroid_fold scan_pixels_def)

lemma foreground_pixels_scan:
  assumes "0 < w"
  shows "mset (foreground_pixels
      \<lparr>width = w, height = h,
       data = snd (raster_loops counts color h w (start_scan counts, replicate (4 * w * h) 0))\<rparr>) =
    mset (scan_pixels counts h w)"
proof -
  let ?fgs = "scan_pixels counts h w"
  let ?idx = "\<lambda>p :: nat \<times> nat. snd p * w + fst p"
  let ?d = "snd (raster_loops counts color h w (start_scan counts, replicate (4 * w * h) 0))"
  let ?cv = "\<lparr>width = w, height = h, data = ?d\<rparr>"
  have range: "fst p < w \<and> snd p < h" if "p \<in> set ?fgs" for p
    using that scan_pixels_range [of counts h w] by auto
  have below: "\<forall>p\<in>set ?fgs. ?idx p < w * h"
    using range by (auto intro: index_in_range)
  have alpha: "?d ! (4 * i + 3) = 210 \<longleftrightarrow> i \<in> ?idx ` set ?fgs" if "i < w * h" for i
  proof -
    have "replicate (4 * w * h) (0::nat) ! (4 * i + 3) = 0"
      using that by simp
    with painted_alpha [OF below, of "replicate (4 * w * h) 0" i color] that
    show ?thesis
      by (simp add: raster_loops_data mult.assoc)
  qed
  have filt: "filter (\<lambda>i. ?d ! (4 * i + 3) = 210) [0..<w * h] =
      filter (\<lambda>i. i \<in> ?idx ` set ?fgs) [0..<w * h]"
    by (rule filter_cong) (simp_all add: alpha)
  have inj: "inj (\<lambda>i. (i mod w, i div w))"
  proof (rule injI)
    fix i j :: nat
    assume "(i mod w, i div w) = (j mod w, j div w)"
    then have "i mod w = j mod w" "i div w = j div w"
      by simp_all
    then show "i = j"
      by (metis div_mult_mod_eq)
  qed
  have d1: "distinct (foreground_pixels ?cv)"
    unfolding foreground_pixels_def
    by (simp add: distinct_map inj_on_subset [OF inj])
  have "set (foreground_pixels ?cv) = (\<lambda>i. (i mod w, i div w)) ` {i. i < w * h \<and> i \<in> ?idx ` set ?fgs}"
    by (auto simp: foreground_pixels_def filt)
  also have "\<dots> = set ?fgs"
  proof (intro equalityI subsetI)
    fix p
    assume "p \<in> (\<lambda>i. (i mod w, i div w)) ` {i. i < w * h \<and> i \<in> ?idx ` set ?fgs}"
    then obtain q where q: "q \<in> set ?fgs" and p: "p = (?idx q mod w, ?idx q div w)"
      by auto
    from range [OF q] have "?idx q mod w = fst q" "?idx q div w = snd q"
      by simp_all
    with p q show "p \<in> set ?fgs"
      by simp
  next
    fix p
    assume p: "p \<in> set ?fgs"
    from range [OF p] have "?idx p mod w = fst p" "?idx p div w = snd p"
      by simp_all
    then have "p = (?idx p mod w, ?idx p div w)"
      by simp
    moreover have "?idx p < w * h"
      using below p by blast
    ultimately show "p \<in> (\<lambda>i. (i mod w, i div w)) ` {i. i < w * h \<and> i \<in> ?idx ` set ?fgs}"
      using p by blast
  qed
  finally have "set (foreground_pixels ?cv) = set ?fgs" .
  with d1 scan_pixels_distinct [of counts h w] show ?thesis
    by (simp add: set_eq_iff_mset_eq_distinct)
qed

lemma mset_sum_list:
  fixes f :: "'a \<Rightarrow> nat"
  assumes "mset xs = mset ys"
  shows "sum_list (map f xs) = sum_list (map f ys)"
proof -
  have "sum_mset (image_mset f (mset xs)) = sum_mset (image_mset f (mset ys))"
    using assms by simp
  then show ?thesis
    by (simp add: sum_mset_sum_list flip: mset_map)
qed

lemma centroid_is_bitmap_centroid:
  assumes "decodeRleToCanvas has_ctx rle color = Inr (Some cv)"
  shows "calculateCentroid rle = Inr (bitmap_centroid cv)"
proof -
  obtain h w where size: "rle_size rle = (h, w)"
    by (cases "rle_size rle")
  from assms size obtain counts where n: "normalize_counts (rle_counts rle) = Some (Inr counts)"
    by (auto simp: decodeRleToCanvas_def split: option.splits sum.splits)
  from assms size n have w: "0 < w" and h: "0 < h" and ne: "counts \<noteq> []"
    by (auto simp: decodeRleToCanvas_def split: if_splits)
  from assms size n w h ne
  have cv: "cv = \<lparr>width = w, height = h,
      data = snd (raster_loops counts color h w (start_scan counts, replicate (4 * w * h) 0))\<rparr>"
    by (simp add: decodeRleToCanvas_def Let_def start_scan_def split: if_splits)
  have m: "mset (foreground_pixels cv) = mset (scan_pixels counts h w)"
    unfolding cv by (rule foreground_pixels_scan [OF w])
  have nil: "foreground_pixels cv = [] \<longleftrightarrow> scan_pixels counts h w = []"
    using m by (metis mset_zero_iff)
  have "calculateCentroid rle =
      (if scan_pixels counts h w = [] then Inr None
       else Inr (Some (of_nat (sum_list (map fst (scan_pixels counts h w))) / of_nat (length (scan_pixels counts h w)),
                       of_nat (sum_list (map snd (scan_pixels counts h w))) / of_nat (length (scan_pixels counts h w)))))"
    using size n ne
    by (simp add: calculateCentroid_def Let_def centroid_loops_totals [unfolded start_scan_def])
  also have "\<dots> = Inr (bitmap_centroid cv)"
    using nil mset_sum_list [OF m, of fst] mset_sum_list [OF m, of snd] mset_eq_length [OF m]
    by (simp add: bitmap_centroid_def Let_def)
  finally show ?thesis .
qed

lemma odd_from_sum:
  "odd_from k xs = sum_list (map (\<lambda>i. xs ! i) (filter (\<lambda>i. odd (k + i)) [0..<length xs]))"
proof (induction xs arbitrary: k)
  case Nil
  show ?case by simp
next
  case (Cons r rs)
  have "[0..<length (r # rs)] = 0 # map Suc [0..<length rs]"
    by (simp add: upt_conv_Cons map_Suc_upt del: upt_Suc)
  then show ?case
    by (simp add: Cons filter_map comp_def del: upt_Suc)
qed

lemma odd_from_nonneg: "\<forall>r\<in>set xs. 0 \<le> r \<Longrightarrow> 0 \<le> odd_from k xs \<and> odd_from k xs \<le> sum_list xs"
  by (induction xs arbitrary: k) (auto simp: add_nonneg_nonneg add_mono intro: order_trans)

lemma consume_runs_valid:
  assumes "\<forall>r\<in>set counts. 0 \<le> r" and "scan_ok counts st" and "0 < rest counts st"
  shows "scan_ok counts (consume_runs counts st) \<and> 0 < runRemaining (consume_runs counts st) \<and>
         rest counts (consume_runs counts st) = rest counts st \<and>
         fg_rest counts (consume_runs counts st) = fg_rest counts st"
  using assms
proof (induction counts st rule: consume_runs.induct)
  case (1 counts st)
  show ?case
  proof (cases "runRemaining st = 0")
    case False
    with "1.prems" show ?thesis
      by (simp add: consume_runs.simps [of counts st] scan_ok_def)
  next
    case True
    let ?ci = "Suc (countsIndex st)"
    let ?st = "\<lparr>countsIndex = ?ci, runRemaining = counts ! ?ci, currentValue = ?ci mod 2\<rparr>"
    have lt: "?ci < length counts"
    proof (rule ccontr)
      assume "\<not> ?ci < length counts"
      with True "1.prems"(3) show False
        by (simp add: rest_def)
    qed
    have d: "drop ?ci counts = counts ! ?ci # drop (Suc ?ci) counts"
      using lt by (simp add: Cons_nth_drop_Suc)
    have nn: "0 \<le> counts ! ?ci"
      using "1.prems"(1) lt by simp
    have ok: "scan_ok counts ?st"
      using lt nn by (simp add: scan_ok_def)
    have r: "rest counts ?st = rest counts st"
      using True d by (simp add: rest_def)
    have f: "fg_rest counts ?st = fg_rest counts st"
      using True d by (simp add: fg_rest_def)
    have c: "consume_runs counts st = consume_runs counts ?st"
      using True lt by (simp add: consume_runs.simps [of counts st] Let_def)
    from "1.IH" [OF True refl _ "1.prems"(1)] lt ok r "1.prems"(3)
    have "scan_ok counts (consume_runs counts ?st) \<and> 0 < runRemaining (consume_runs counts ?st) \<and>
         rest counts (consume_runs counts ?st) = rest counts ?st \<and>
         fg_rest counts (consume_runs counts ?st) = fg_rest counts ?st"
      by simp
    with c r f show ?thesis
      by simp
  qed
qed

lemma scan_flags_count:
  assumes "\<forall>r\<in>set counts. 0 \<le> r" and "scan_ok counts st" and "rest counts st = int n"
  shows "int (length (filter id (scan_flags counts st n))) = fg_rest counts st"
  using assms
proof (induction n arbitrary: st)
  case 0
  have nn: "\<forall>r\<in>set (drop (Suc (countsIndex st)) counts). 0 \<le> r"
    using "0.prems"(1) by (auto dest: in_set_dropD)
  then have "0 \<le> sum_list (drop (Suc (countsIndex st)) counts)"
    by (simp add: sum_list_nonneg)
  with "0.prems" have z: "runRemaining st = 0" "sum_list (drop (Suc (countsIndex st)) counts) = 0"
    by (simp_all add: rest_def scan_ok_def)
  with odd_from_nonneg [OF nn, of "Suc (countsIndex st)"]
  show ?case
    by (simp add: fg_rest_def)
next
  case (Suc n)
  let ?st1 = "consume_runs counts st"
  let ?st2 = "scan_step counts st"
  from consume_runs_valid [OF Suc.prems(1,2)] Suc.prems(3)
  have ok1: "scan_ok counts ?st1" and pos: "0 < runRemaining ?st1"
    and r1: "rest counts ?st1 = int (Suc n)" and f1: "fg_rest counts ?st1 = fg_rest counts st"
    by simp_all
  have st2: "?st2 = ?st1\<lparr>runRemaining := runRemaining ?st1 - 1\<rparr>"
    using pos by (simp add: scan_step_def count_down_def)
  have ok2: "scan_ok counts ?st2"
    using ok1 pos by (simp add: st2 scan_ok_def)
  have r2: "rest counts ?st2 = int n"
    using r1 by (simp add: st2 rest_def)
  have fg: "scan_fg counts st \<longleftrightarrow> odd (countsIndex ?st1)"
    using ok1 by (simp add: scan_fg_def scan_ok_def odd_iff_mod_2_eq_one)
  have f2: "fg_rest counts ?st2 = fg_rest counts ?st1 - (if odd (countsIndex ?st1) then 1 else 0)"
    by (simp add: st2 fg_rest_def)
  from Suc.IH [OF Suc.prems(1) ok2 r2] f1 f2 fg show ?case
    by simp
qed

lemma start_scan_valid:
  assumes "\<forall>r\<in>set counts. 0 \<le> r" and "counts \<noteq> []"
  shows "scan_ok counts (start_scan counts)" and "rest counts (start_scan counts) = sum_list counts"
    and "fg_rest counts (start_scan counts) = odd_index_sum counts"
proof -
  obtain r rs where c: "counts = r # rs"
    using assms(2) by (cases counts) auto
  show "scan_ok counts (start_scan counts)"
    using assms by (simp add: scan_ok_def start_scan_def c)
  show "rest counts (start_scan counts) = sum_list counts"
    by (simp add: rest_def start_scan_def c)
  have "odd_from 0 counts = odd_index_sum counts"
    by (simp add: odd_from_sum odd_index_sum_def)
  then show "fg_rest counts (start_scan counts) = odd_index_sum counts"
    by (simp add: fg_rest_def start_scan_def c)
qed

lemma foreground_count_valid:
  assumes "normalize_counts (rle_counts rle) = Some (Inr counts)" and "rle_size rle = (h, w)"
    and "\<forall>r\<in>set counts. 0 \<le> r" and "sum_list counts = int (h * w)"
    and "decodeRleToCanvas has_ctx rle color = Inr (Some cv)"
  shows "int (foreground_count cv) = odd_index_sum counts"
proof -
  from assms(1,2,5) have w: "0 < w" and h: "0 < h" and ne: "counts \<noteq> []"
    by (auto simp: decodeRleToCanvas_def split: if_splits)
  from assms(1,2,5) w h ne
  have cv: "cv = \<lparr>width = w, height = h,
      data = snd (raster_loops counts color h w (start_scan counts, replicate (4 * w * h) 0))\<rparr>"
    by (simp add: decodeRleToCanvas_def Let_def start_scan_def split: if_splits)
  have "foreground_count cv = length (scan_pixels counts h w)"
    unfolding cv foreground_count_def by (rule mset_eq_length) (rule foreground_pixels_scan [OF w])
  also have "\<dots> = length (filter id (scan_flags counts (start_scan counts) (w * h)))"
    by (simp add: scan_pixels_def length_painted)
  finally have "int (foreground_count cv) =
      int (length (filter id (scan_flags counts (start_scan counts) (w * h))))"
    by simp
  also have "\<dots> = fg_rest counts (start_scan counts)"
    using start_scan_valid [OF assms(3) ne] assms(4)
    by (intro scan_flags_count [OF assms(3)]) (simp_all add: mult.commute)
  finally show ?thesis
    using start_scan_valid(3) [OF assms(3) ne] by simp
qed

lemma raster_returns_canvas:
  assumes "normalize_counts (rle_counts rle) = Some (Inr counts)" and "rle_size rle = (h, w)"
    and "0 < h" and "0 < w" and "counts \<noteq> []"
  shows "\<exists>cv. decodeRleToCanvas True rle color = Inr (Some cv)"
  using assms by (simp add: decodeRleToCanvas_def Let_def)

text \<open>
  For run lengths that fit the image, the scan finds foreground the pixels that the
  mask of the RLE has foreground.
\<close>

lemma length_runs_from:
  "\<forall>r\<in>set rs. 0 \<le> r \<Longrightarrow> int (length (runs_from k rs)) = sum_list rs"
  by (induction rs arbitrary: k) auto

lemma consume_runs_mask:
  assumes "\<forall>r\<in>set counts. 0 \<le> r" and "scan_ok counts st" and "0 < rest counts st"
  shows "mask_rest counts (consume_runs counts st) = mask_rest counts st"
  using assms
proof (induction counts st rule: consume_runs.induct)
  case (1 counts st)
  show ?case
  proof (cases "runRemaining st = 0")
    case False
    then show ?thesis
      by (simp add: consume_runs.simps [of counts st])
  next
    case True
    let ?ci = "Suc (countsIndex st)"
    let ?st = "\<lparr>countsIndex = ?ci, runRemaining = counts ! ?ci, currentValue = ?ci mod 2\<rparr>"
    have lt: "?ci < length counts"
    proof (rule ccontr)
      assume "\<not> ?ci < length counts"
      with True "1.prems"(3) show False
        by (simp add: rest_def)
    qed
    have d: "drop ?ci counts = counts ! ?ci # drop (Suc ?ci) counts"
      using lt by (simp add: Cons_nth_drop_Suc)
    have nn: "0 \<le> counts ! ?ci"
      using "1.prems"(1) lt by simp
    have ok: "scan_ok counts ?st"
      using lt nn by (simp add: scan_ok_def)
    have r: "rest counts ?st = rest counts st"
      using True d by (simp add: rest_def)
    have m: "mask_rest counts ?st = mask_rest counts st"
      using True d by (simp add: mask_rest_def)
    have c: "consume_runs counts st = consume_runs counts ?st"
      using True lt by (simp add: consume_runs.simps [of counts st] Let_def)
    from "1.IH" [OF True refl _ "1.prems"(1)] lt ok r "1.prems"(3)
    have "mask_rest counts (consume_runs counts ?st) = mask_rest counts ?st"
      by simp
    with c m show ?thesis
      by simp
  qed
qed

lemma scan_flags_mask:
  assumes "\<forall>r\<in>set counts. 0 \<le> r" and "scan_ok counts st" and "rest counts st = int n"
  shows "scan_flags counts st n = mask_rest counts st"
  using assms
proof (induction n arbitrary: st)
  case 0
  have nn: "\<forall>r\<in>set (drop (Suc (countsIndex st)) counts). 0 \<le> r"
    using "0.prems"(1) by (auto dest: in_set_dropD)
  then have "0 \<le> sum_list (drop (Suc (countsIndex st)) counts)"
    by (simp add: sum_list_nonneg)
  with "0.prems" have z: "runRemaining st = 0" "sum_list (drop (Suc (countsIndex st)) counts) = 0"
    by (simp_all add: rest_def scan_ok_def)
  with length_runs_from [OF nn, of "Suc (countsIndex st)"] show ?case
    by (simp add: mask_rest_def)
next
  case (Suc n)
  let ?st1 = "consume_runs counts st"
  let ?st2 = "scan_step counts st"
  from consume_runs_valid [OF Suc.prems(1,2)] Suc.prems(3)
  have ok1: "scan_ok counts ?st1" and pos: "0 < runRemaining ?st1"
    and r1: "rest counts ?st1 = int (Suc n)"
    by simp_all
  have m1: "mask_rest counts ?st1 = mask_rest counts st"
    using consume_runs_mask [OF Suc.prems(1,2)] Suc.prems(3) by simp
  have st2: "?st2 = ?st1\<lparr>runRemaining := runRemaining ?st1 - 1\<rparr>"
    using pos by (simp add: scan_step_def count_down_def)
  have ok2: "scan_ok counts ?st2"
    using ok1 pos by (simp add: st2 scan_ok_def)
  have r2: "rest counts ?st2 = int n"
    using r1 by (simp add: st2 rest_def)
  have fg: "scan_fg counts st \<longleftrightarrow> odd (countsIndex ?st1)"
    using ok1 by (simp add: scan_fg_def scan_ok_def odd_iff_mod_2_eq_one)
  have "nat (runRemaining ?st1) = Suc (nat (runRemaining ?st1 - 1))"
    using pos by simp
  then have m2: "mask_rest counts ?st1 = odd (countsIndex ?st1) # mask_rest counts ?st2"
    by (simp add: st2 mask_rest_def)
  from Suc.IH [OF Suc.prems(1) ok2 r2] m1 m2 fg show ?case
    by simp
qed

lemma start_scan_mask:
  assumes "\<forall>r\<in>set counts. 0 \<le> r" and "counts \<noteq> []"
  shows "mask_rest counts (start_scan counts) = rle_mask counts"
proof -
  obtain r rs where c: "counts = r # rs"
    using assms(2) by (cases counts) auto
  show ?thesis
    by (simp add: mask_rest_def start_scan_def rle_mask_def c)
qed

lemma scan_pixels_rle:
  assumes "\<forall>r\<in>set counts. 0 \<le> r" and "counts \<noteq> []" and "sum_list counts = int (h * w)"
  shows "scan_pixels counts h w = rle_foreground counts h w"
proof -
  have "scan_flags counts (start_scan counts) (w * h) = rle_mask counts"
    using start_scan_valid(1,2) [OF assms(1,2)] assms(3) start_scan_mask [OF assms(1,2)]
    by (subst scan_flags_mask [OF assms(1)]) (simp_all add: mult.commute)
  then show ?thesis
    by (simp add: scan_pixels_def rle_foreground_def painted_def)
qed

lemma calculateCentroid_scan:
  assumes "normalize_counts (rle_counts rle) = Some (Inr counts)" and "rle_size rle = (h, w)"
    and "counts \<noteq> []"
  shows "calculateCentroid rle =
      Inr (if scan_pixels counts h w = [] then None
           else Some (of_nat (sum_list (map fst (scan_pixels counts h w))) /
                        of_nat (length (scan_pixels counts h w)),
                      of_nat (sum_list (map snd (scan_pixels counts h w))) /
                        of_nat (length (scan_pixels counts h w))))"
  using assms
  by (simp add: calculateCentroid_def Let_def centroid_loops_totals [unfolded start_scan_def])

lemma length_rle_foreground:
  assumes "\<forall>r\<in>set counts. 0 \<le> r" and "counts \<noteq> []" and "sum_list counts = int (h * w)"
  shows "int (length (rle_foreground counts h w)) = odd_index_sum counts"
proof -
  have "length (scan_pixels counts h w) =
      length (filter id (scan_flags counts (start_scan counts) (w * h)))"
    by (simp add: scan_pixels_def length_painted)
  then have "length (rle_foreground counts h w) =
      length (filter id (scan_flags counts (start_scan counts) (w * h)))"
    by (simp add: scan_pixels_rle [OF assms])
  moreover have "int (length (filter id (scan_flags counts (start_scan counts) (w * h)))) =
      fg_rest counts (start_scan counts)"
    using start_scan_valid [OF assms(1,2)] assms(3)
    by (intro scan_flags_count [OF assms(1)]) (simp_all add: mult.commute)
  ultimately show ?thesis
    using start_scan_valid(3) [OF assms(1,2)] by simp
qed

lemma foreground_pixels_canvas:
  assumes "normalize_counts (rle_counts rle) = Some (Inr counts)" and "rle_size rle = (h, w)"
    and "decodeRleToCanvas has_ctx rle color = Inr (Some cv)"
  shows "mset (foreground_pixels cv) = mset (scan_pixels counts h w)"
proof -
  from assms have w: "0 < w" and h: "0 < h" and ne: "counts \<noteq> []"
    by (auto simp: decodeRleToCanvas_def split: if_splits)
  from assms w h ne
  have cv: "cv = \<lparr>width = w, height = h,
      data = snd (raster_loops counts color h w (start_scan counts, replicate (4 * w * h) 0))\<rparr>"
    by (simp add: decodeRleToCanvas_def Let_def start_scan_def split: if_splits)
  show ?thesis
    unfolding cv by (rule foreground_pixels_scan [OF w])
qed

section \<open>Properties of the annotation matcher\<close>

lemma last_index_before_append:
  "n \<le> length s \<Longrightarrow> last_index_before (s @ t) u n = last_index_before s u n"
  by (induction n) (simp_all add: nth_append)

lemma last_index_before_absent:
  "u \<notin> set (take n s) \<Longrightarrow> n \<le> length s \<Longrightarrow> last_index_before s u n = - 1"
proof (induction n)
  case 0
  show ?case by simp
next
  case (Suc n)
  then have "s ! n \<noteq> u" and "u \<notin> set (take n s)"
    by (auto simp: take_Suc_conv_app_nth)
  with Suc show ?case
    by simp
qed

lemma last_index_before_last:
  "u \<notin> set b \<Longrightarrow> last_index_before (a @ u # b) u (length a + Suc (length b)) = int (length a)"
proof (induction b rule: rev_induct)
  case Nil
  show ?case by (simp add: nth_append)
next
  case (snoc x b)
  then have x: "x \<noteq> u" and b: "u \<notin> set b"
    by auto
  have "(a @ u # b @ [x]) ! (length a + Suc (length b)) = x"
    by (simp add: nth_append)
  moreover have "last_index_before (a @ u # b @ [x]) u (length a + Suc (length b)) =
      last_index_before (a @ u # b) u (length a + Suc (length b))"
    using last_index_before_append [of "length a + Suc (length b)" "a @ u # b" "[x]" u] by simp
  ultimately show ?case
    using x snoc.IH [OF b] by simp
qed

lemma before_last_dot_split: "46 \<notin> set b \<Longrightarrow> before_last_dot (a @ 46 # b) = a"
proof -
  assume "46 \<notin> set b"
  then have "dropWhile (\<lambda>u. u \<noteq> 46) (rev b @ 46 # rev a) = 46 # rev a"
    by (auto simp: dropWhile_append3)
  then show ?thesis
    by (simp add: before_last_dot_def)
qed

lemma name_no_ext_stripped: "name_no_ext s = stripped s"
proof (cases "46 \<in> set s")
  case False
  then have "lastIndexOf s 46 = - 1"
    by (simp add: lastIndexOf_def last_index_before_absent)
  with False show ?thesis
    by (simp add: name_no_ext_def stripped_def substring_def or_else_def)
next
  case True
  then obtain a b where s: "s = a @ 46 # b" and b: "46 \<notin> set b"
    by (auto dest: split_list_last)
  have "lastIndexOf s 46 = int (length a)"
    using last_index_before_last [OF b, of a] by (simp add: lastIndexOf_def s)
  then have "substring s 0 (lastIndexOf s 46) = a"
    by (simp add: substring_def s)
  with True show ?thesis
    by (simp add: name_no_ext_def stripped_def or_else_def before_last_dot_split [OF b] s)
qed

lemma find_first:
  "(case find P xs of
      Some x \<Rightarrow> \<exists>i<length xs. x = xs ! i \<and> P (xs ! i) \<and> (\<forall>j<i. \<not> P (xs ! j))
    | None \<Rightarrow> \<forall>x\<in>set xs. \<not> P x)"
  by (auto simp: find_Some_iff find_None_iff split: option.splits)

lemma getBasename_base_name: "getBasename path = base_name path"
  by (simp add: getBasename_def base_name_def final_segment_def or_else_def)

text \<open>The definitions that evaluate the string operations on a given name.\<close>

lemmas matcher_defs = name_no_ext_def getBasename_def trim_def is_white_space_def
  lastIndexOf_def substring_def or_else_def units_def lower_ascii_def stripped_as_stated_def
  final_segment_def before_last_dot_def stripped_def base_name_def Let_def

section \<open>Properties of the comparison of ids\<close>

declare digits_of.simps [simp del]

lemma digits_of_digits: "list_all is_digit (digits_of n) \<and> digits_of n \<noteq> []"
proof (induction n rule: digits_of.induct)
  case (1 n)
  show ?case
  proof (cases "n < 10")
    case True
    then show ?thesis
      by (simp add: digits_of.simps [of n] is_digit_def)
  next
    case False
    have "n mod 10 < 10"
      by simp
    then have "is_digit (48 + n mod 10)"
      unfolding is_digit_def by linarith
    with False "1.IH" show ?thesis
      by (simp add: digits_of.simps [of n])
  qed
qed

lemma digits_value_snoc: "digits_value (ds @ [d]) = 10 * digits_value ds + (d - 48)"
  by (simp add: digits_value_def)

lemma digits_value_digits_of: "digits_value (digits_of n) = n"
proof (induction n rule: digits_of.induct)
  case (1 n)
  show ?case
  proof (cases "n < 10")
    case True
    then show ?thesis
      by (simp add: digits_of.simps [of n] digits_value_def)
  next
    case False
    with "1.IH" show ?thesis
      by (simp add: digits_of.simps [of n] digits_value_snoc)
  qed
qed

lemma all_digits_digits_of: "all_digits (digits_of n)"
  using digits_of_digits [of n] by (simp add: all_digits_def)

lemma digit_not_space: "is_digit u \<Longrightarrow> \<not> is_white_space u"
  by (auto simp: is_digit_def is_white_space_def)

lemma trim_no_space:
  assumes "s \<noteq> []" and "\<not> is_white_space (hd s)" and "\<not> is_white_space (last s)"
  shows "trim s = s"
proof -
  have "dropWhile is_white_space s = s"
    using assms(1,2) by (cases s) simp_all
  moreover have "dropWhile is_white_space (rev s) = rev s"
    using assms(1,3) by (cases "rev s") (simp_all add: last_rev [symmetric] hd_rev)
  ultimately show ?thesis
    by (simp add: trim_def)
qed

lemma trim_number_to_string: "trim (number_to_string n) = number_to_string n"
proof -
  obtain m where m: "m = (if n < 0 then nat (- n) else nat n)"
    by simp
  have d: "list_all is_digit (digits_of m)" "digits_of m \<noteq> []"
    using digits_of_digits [of m] by simp_all
  then have "is_digit (hd (digits_of m))" "is_digit (last (digits_of m))"
    by (simp_all add: list_all_iff)
  then have h: "\<not> is_white_space (hd (digits_of m))" "\<not> is_white_space (last (digits_of m))"
    by (simp_all add: digit_not_space)
  have "\<not> is_white_space 45"
    by (simp add: is_white_space_def)
  with h d(2) m show ?thesis
    by (intro trim_no_space) (auto simp: number_to_string_def)
qed

lemma parse_number_to_string: "parse_decimal_integer (number_to_string n) = Some n"
proof (cases "n < 0")
  case True
  then show ?thesis
    by (simp add: number_to_string_def parse_decimal_integer_def all_digits_digits_of
        digits_value_digits_of)
next
  case False
  obtain c cs where c: "digits_of (nat n) = c # cs"
    using digits_of_digits [of "nat n"] by (cases "digits_of (nat n)") auto
  have "is_digit c"
    using digits_of_digits [of "nat n"] c by simp
  then have "c \<noteq> 45" "c \<noteq> 43"
    by (auto simp: is_digit_def)
  moreover have "all_digits (c # cs)" "digits_value (c # cs) = nat n"
    using all_digits_digits_of [of "nat n"] digits_value_digits_of [of "nat n"] c by simp_all
  ultimately show ?thesis
    using False by (simp add: number_to_string_def parse_decimal_integer_def c)
qed

lemma StringToNumber_number_to_string:
  "\<bar>n\<bar> \<le> 2 ^ 53 \<Longrightarrow> StringToNumber other (number_to_string n) = Some n"
proof -
  assume n: "\<bar>n\<bar> \<le> 2 ^ 53"
  have "number_to_string n \<noteq> []"
    using digits_of_digits by (simp add: number_to_string_def)
  with n show ?thesis
    by (simp add: StringToNumber_def trim_number_to_string parse_number_to_string)
qed

section \<open>Properties of the order of siblings\<close>

lemma set_insert_by: "set (insert_by cmp x xs) = insert x (set xs)"
  by (induction xs) auto

lemma sorted_insert_by:
  assumes "consistent_comparator cmp" and "sorted_wrt (\<lambda>a b. cmp a b \<le> 0) xs"
  shows "sorted_wrt (\<lambda>a b. cmp a b \<le> 0) (insert_by cmp x xs)"
  using assms(2)
proof (induction xs)
  case Nil
  show ?case by simp
next
  case (Cons y ys)
  from assms(1) have total: "\<And>a b. cmp a b \<le> 0 \<or> cmp b a \<le> 0"
    and trans: "\<And>a b c. cmp a b \<le> 0 \<Longrightarrow> cmp b c \<le> 0 \<Longrightarrow> cmp a c \<le> 0"
    unfolding consistent_comparator_def by blast+
  show ?case
  proof (cases "cmp x y \<le> 0")
    case True
    have "cmp x z \<le> 0" if "z \<in> set ys" for z
      using Cons.prems that True trans by auto
    with True Cons.prems show ?thesis
      by auto
  next
    case False
    with total have "cmp y x \<le> 0"
      by blast
    with False Cons show ?thesis
      by (auto simp: set_insert_by)
  qed
qed

lemma sorted_array_sort:
  "consistent_comparator cmp \<Longrightarrow> sorted_wrt (\<lambda>a b. cmp a b \<le> 0) (array_sort cmp xs)"
  unfolding array_sort_def by (induction xs) (simp_all add: sorted_insert_by)

lemma mset_insert_by: "mset (insert_by cmp x xs) = add_mset x (mset xs)"
  by (induction xs) auto

lemma mset_array_sort: "mset (array_sort cmp xs) = mset xs"
  unfolding array_sort_def by (induction xs) (simp_all add: mset_insert_by)

lemma mset_object_entries: "mset (object_entries props) = mset props"
  by (simp add: object_entries_def)

lemma consistent_compare_entries:
  assumes "consistent_comparator localeCompare"
  shows "consistent_comparator (compare_entries localeCompare)"
proof -
  from assms have total: "\<And>a b. localeCompare a b \<le> 0 \<or> localeCompare b a \<le> 0"
    and trans: "\<And>a b c. localeCompare a b \<le> 0 \<Longrightarrow> localeCompare b c \<le> 0 \<Longrightarrow> localeCompare a c \<le> 0"
    unfolding consistent_comparator_def by blast+
  have t: "compare_entries localeCompare a b \<le> 0 \<or> compare_entries localeCompare b a \<le> 0" for a b
    using total [of "fst a" "fst b"]
    by (cases "node_type (snd a)"; cases "node_type (snd b)") (simp_all add: compare_entries_def)
  have r: "compare_entries localeCompare a c \<le> 0"
    if "compare_entries localeCompare a b \<le> 0" and "compare_entries localeCompare b c \<le> 0" for a b c
    using that trans [of "fst a" "fst b" "fst c"]
    by (cases "node_type (snd a)"; cases "node_type (snd b)"; cases "node_type (snd c)")
      (simp_all add: compare_entries_def)
  from t r show ?thesis
    unfolding consistent_comparator_def by blast
qed

lemma compare_units_total: "compare_units a b \<le> 0 \<or> compare_units b a \<le> 0"
  by (induction a b rule: compare_units.induct) auto

lemma compare_units_trans:
  "compare_units a b \<le> 0 \<Longrightarrow> compare_units b c \<le> 0 \<Longrightarrow> compare_units a c \<le> 0"
proof (induction a b arbitrary: c rule: compare_units.induct)
  case 1
  then show ?case by simp
next
  case (2 y ys)
  then show ?case by (cases c) simp_all
next
  case (3 x xs)
  then show ?case by simp
next
  case (4 x xs y ys)
  show ?case
  proof (cases c)
    case Nil
    with "4.prems" show ?thesis by simp
  next
    case (Cons z zs)
    with "4.prems" "4.IH" [of zs] show ?thesis
      by (auto split: if_splits)
  qed
qed

lemma consistent_compare_units: "consistent_comparator compare_units"
  unfolding consistent_comparator_def using compare_units_total compare_units_trans by blast

lemma compare_units_eq: "compare_units a b = 0 \<longleftrightarrow> a = b"
  by (induction a b rule: compare_units.induct) auto

lemma compare_units_flip: "0 < compare_units a b \<Longrightarrow> compare_units b a < 0"
  by (induction a b rule: compare_units.induct) (auto split: if_splits)

lemma compare_units_antisym: "compare_units a b \<le> 0 \<Longrightarrow> compare_units b a \<le> 0 \<Longrightarrow> a = b"
  by (induction a b rule: compare_units.induct) (auto split: if_splits)

lemma consistent_compare_folded: "consistent_comparator compare_folded"
  unfolding consistent_comparator_def
proof (intro conjI allI impI)
  fix a b
  let ?c = "compare_units (lower_ascii a) (lower_ascii b)"
  consider "?c < 0" | "?c = 0" | "0 < ?c"
    by linarith
  then show "compare_folded a b \<le> 0 \<or> compare_folded b a \<le> 0"
  proof cases
    case 1
    then show ?thesis
      by (simp add: compare_folded_def)
  next
    case 2
    then have "lower_ascii a = lower_ascii b"
      by (simp add: compare_units_eq)
    then show ?thesis
      using compare_units_total [of a b] by (auto simp: compare_folded_def compare_units_eq)
  next
    case 3
    then have "compare_units (lower_ascii b) (lower_ascii a) < 0"
      by (rule compare_units_flip)
    then show ?thesis
      by (simp add: compare_folded_def)
  qed
next
  fix a b c
  assume "compare_folded a b \<le> 0 \<and> compare_folded b c \<le> 0"
  then have ab: "compare_folded a b \<le> 0" and bc: "compare_folded b c \<le> 0"
    by simp_all
  have lab: "compare_units (lower_ascii a) (lower_ascii b) \<le> 0"
    using ab by (auto simp: compare_folded_def Let_def split: if_splits)
  have lbc: "compare_units (lower_ascii b) (lower_ascii c) \<le> 0"
    using bc by (auto simp: compare_folded_def Let_def split: if_splits)
  have lac: "compare_units (lower_ascii a) (lower_ascii c) \<le> 0"
    using lab lbc by (rule compare_units_trans)
  show "compare_folded a c \<le> 0"
  proof (cases "compare_units (lower_ascii a) (lower_ascii c) = 0")
    case False
    with lac show ?thesis
      by (simp add: compare_folded_def)
  next
    case True
    then have e: "lower_ascii a = lower_ascii c"
      by (simp add: compare_units_eq)
    with lab lbc have "lower_ascii a = lower_ascii b"
      by (auto intro: compare_units_antisym)
    with e ab bc have "compare_units b a \<le> 0" "compare_units c b \<le> 0"
      by (simp_all add: compare_folded_def compare_units_eq)
    then have "compare_units c a \<le> 0"
      using compare_units_trans by blast
    with True show ?thesis
      by (simp add: compare_folded_def)
  qed
qed

lemma shown_entries_sorted:
  assumes "consistent_comparator localeCompare"
  shows "sorted_wrt (\<lambda>a b. compare_entries localeCompare a b \<le> 0) (shown_entries localeCompare node)"
  using sorted_array_sort [OF consistent_compare_entries [OF assms]]
  by (simp add: shown_entries_def split: option.splits)

lemma shown_entries_ordered:
  assumes "consistent_comparator localeCompare"
  shows "ordered_siblings localeCompare (shown_entries localeCompare node)"
  unfolding ordered_siblings_def
proof (intro allI impI)
  fix i j
  let ?es = "shown_entries localeCompare node"
  assume ij: "i < j \<and> j < length ?es"
  with shown_entries_sorted [OF assms, of node]
  have c: "compare_entries localeCompare (?es ! i) (?es ! j) \<le> 0"
    by (simp add: sorted_wrt_iff_nth_less)
  show "(node_type (snd (?es ! j)) = Folder \<longrightarrow> node_type (snd (?es ! i)) = Folder) \<and>
        (node_type (snd (?es ! i)) = node_type (snd (?es ! j)) \<longrightarrow>
           localeCompare (fst (?es ! i)) (fst (?es ! j)) \<le> 0)"
    using c
    by (cases "node_type (snd (?es ! i))"; cases "node_type (snd (?es ! j))")
      (simp_all add: compare_entries_def)
qed

lemma shown_entries_mset:
  "node_type node = Folder \<Longrightarrow>
   mset (shown_entries localeCompare node) =
     mset (case children node of None \<Rightarrow> [] | Some props \<Rightarrow> props)"
  by (simp add: shown_entries_def mset_array_sort mset_object_entries split: option.splits)

text \<open>The definitions that evaluate the indexer and the order on given names.\<close>

lemmas tree_defs = buildFileTree_def has_proto_segment_def root_node_def image_named_def
  with_children_def inherited_names_def units_def Let_def shown_entries_def array_sort_def
  object_entries_def is_array_index_def all_digits_def is_digit_def compare_entries_def

section \<open>The claim about the delta rule of the decoder\<close>

text \<open>
  C1, as stated: from output index 2 on, the stored value is the raw value plus the
  stored value two positions back. The test of the source is \<open>m > 2\<close>, so the value
  at index 2 is stored raw: the string \<open>"111"\<close> decodes to \<open>[1, 1, 1]\<close>, and the
  value at index 2 is 1, not \<open>1 + 1\<close>.
\<close>

theorem decode_delta_from_index_two_counterexample:
  "decodeCocoRleString (units ''111'') = Inr [1, 1, 1] \<and>
   raw_deltas (units ''111'') = [1, 1, 1] \<and>
   [1, 1, 1 :: int] ! 2 \<noteq> raw_deltas (units ''111'') ! 2 + [1, 1, 1 :: int] ! 0"
proof -
  have "decodeCocoRleString (units ''111'') = Inr [1, 1, 1]"
    by code_simp
  moreover have "raw_deltas (units ''111'') = [1, 1, 1]"
    by code_simp
  ultimately show ?thesis
    by simp
qed

text \<open>
  C1, amended: the decoder stores one value per raw decoded value; from output index 3
  on (the fourth value), the stored value is the raw value plus the stored value two
  positions back; the values at indices 0, 1 and 2 are the raw values unchanged.
\<close>

theorem decode_delta_rule:
  assumes "decodeCocoRleString s = Inr out"
  shows "length out = length (raw_deltas s) \<and>
    (\<forall>i<length out.
       out ! i = (if i > 2 then raw_deltas s ! i + out ! (i - 2) else raw_deltas s ! i))"
  using assms decode_loop_delta [of s 0 "[]"]
  by (auto simp: decodeCocoRleString_def raw_deltas_def)

theorem decode_delta_rule_witness:
  "decodeCocoRleString (units ''1111'') = Inr [1, 1, 1, 2] \<and>
   raw_deltas (units ''1111'') = [1, 1, 1, 1] \<and>
   [1, 1, 1, 2 :: int] ! 3 = raw_deltas (units ''1111'') ! 3 + [1, 1, 1, 2 :: int] ! 1 \<and>
   [1, 1, 1, 2 :: int] ! 2 = raw_deltas (units ''1111'') ! 2"
proof -
  have d: "decodeCocoRleString (units ''1111'') = Inr [1, 1, 1, 2]"
    by code_simp
  have r: "raw_deltas (units ''1111'') = [1, 1, 1, 1]"
    by code_simp
  from decode_delta_rule [OF d]
  have "\<forall>i<4. [1, 1, 1, 2 :: int] ! i =
      (if i > 2 then raw_deltas (units ''1111'') ! i + [1, 1, 1, 2 :: int] ! (i - 2)
       else raw_deltas (units ''1111'') ! i)"
    by simp
  then have "[1, 1, 1, 2 :: int] ! 3 = raw_deltas (units ''1111'') ! 3 + [1, 1, 1, 2 :: int] ! 1"
    and "[1, 1, 1, 2 :: int] ! 2 = raw_deltas (units ''1111'') ! 2"
    by (simp_all add: r)
  with d r show ?thesis
    by simp
qed

section \<open>The claims about the rasterizer and the centroid\<close>

text \<open>
  C2 (rasterizer undershoot): when the run lengths sum to less than \<open>h * w\<close>, every
  pixel at a scan position from the sum on is left background. The source stops reading
  at the end of the array, but its \<open>break\<close> leaves \<open>currentValue\<close> as the last run
  set it: with counts \<open>[0, 1]\<close> and size \<open>[1, 2]\<close> the runs cover one pixel of two, and
  the second pixel (scan position 1, bytes 4 to 7) is stored as foreground too.
\<close>

theorem raster_undershoot_paints_remainder:
  "sum_list [0, 1 :: int] < int (1 * 2) \<and>
   decodeRleToCanvas True \<lparr>rle_counts = CountsArray [0, 1], rle_size = (1, 2)\<rparr> (255, 0, 0) =
     Inr (Some \<lparr>width = 2, height = 1, data = [255, 0, 0, 210, 255, 0, 0, 210]\<rparr>)"
  by code_simp

text \<open>
  C3: for non-negative run lengths \<open>S\<close> (an array, or the decoded string) whose sum is
  \<open>h * w\<close>, the canvas the rasterizer returns has as many foreground pixels as the sum
  of the elements of \<open>S\<close> at odd indices; and it returns a canvas when the size is
  not zero and a context is there.
\<close>

theorem raster_foreground_count:
  assumes "normalize_counts (rle_counts rle) = Some (Inr S)" and "rle_size rle = (h, w)"
    and "\<forall>r\<in>set S. 0 \<le> r" and "sum_list S = int (h * w)"
  shows "(0 < h \<and> 0 < w \<longrightarrow> (\<exists>cv. decodeRleToCanvas True rle color = Inr (Some cv))) \<and>
         (\<forall>cv. decodeRleToCanvas has_ctx rle color = Inr (Some cv) \<longrightarrow>
               int (foreground_count cv) = odd_index_sum S)"
proof (intro conjI impI allI)
  assume "0 < h \<and> 0 < w"
  with assms(4) have "S \<noteq> []"
    by auto
  with \<open>0 < h \<and> 0 < w\<close> show "\<exists>cv. decodeRleToCanvas True rle color = Inr (Some cv)"
    using raster_returns_canvas [OF assms(1,2)] by simp
next
  fix cv
  assume "decodeRleToCanvas has_ctx rle color = Inr (Some cv)"
  then show "int (foreground_count cv) = odd_index_sum S"
    by (rule foreground_count_valid [OF assms])
qed

theorem raster_foreground_count_witness:
  "sum_list [1, 2, 3 :: int] = int (2 * 3) \<and>
   decodeRleToCanvas True \<lparr>rle_counts = CountsArray [1, 2, 3], rle_size = (2, 3)\<rparr> (255, 0, 0) =
     Inr (Some \<lparr>width = 3, height = 2,
       data = [0, 0, 0, 0, 255, 0, 0, 210, 0, 0, 0, 0, 255, 0, 0, 210, 0, 0, 0, 0, 0, 0, 0, 0]\<rparr>) \<and>
   int (foreground_count \<lparr>width = 3, height = 2,
       data = [0, 0, 0, 0, 255, 0, 0, 210, 0, 0, 0, 0, 255, 0, 0, 210, 0, 0, 0, 0, 0, 0, 0, 0]\<rparr>) =
     odd_index_sum [1, 2, 3] \<and>
   odd_index_sum [1, 2, 3] = 2"
proof -
  let ?rle = "\<lparr>rle_counts = CountsArray [1, 2, 3], rle_size = (2, 3)\<rparr>"
  let ?cv = "\<lparr>width = 3, height = 2,
       data = [0, 0, 0, 0, 255, 0, 0, 210, 0, 0, 0, 0, 255, 0, 0, 210, 0, 0, 0, 0, 0, 0, 0, 0]\<rparr>"
  have r: "decodeRleToCanvas True ?rle (255, 0, 0) = Inr (Some ?cv)"
    by code_simp
  have n: "normalize_counts (rle_counts ?rle) = Some (Inr [1, 2, 3])"
    by (simp add: normalize_counts_def)
  have s: "sum_list [1, 2, 3 :: int] = int (2 * 3)"
    by simp
  have z: "rle_size ?rle = (2, 3)"
    by simp
  have p: "\<forall>r\<in>set [1, 2, 3 :: int]. 0 \<le> r"
    by simp
  have "int (foreground_count ?cv) = odd_index_sum [1, 2, 3]"
    using raster_foreground_count [OF n z p s, where has_ctx = True and color = "(255, 0, 0)"] r
    by simp
  moreover have "odd_index_sum [1, 2, 3] = 2"
    by code_simp
  ultimately show ?thesis
    using r s by simp
qed

text \<open>
  C4: whenever the rasterizer returns a bitmap for an RLE, the centroid that
  \<open>calculateCentroid\<close> accumulates for the same RLE is the centroid of that bitmap: the
  mean of the coordinates of its foreground pixels when there is one (and null when
  there is none). This holds for all run lengths, the non-negative ones among them.
\<close>

theorem centroid_streaming_equals_bitmap:
  assumes "decodeRleToCanvas has_ctx rle color = Inr (Some cv)"
  shows "calculateCentroid rle = Inr (bitmap_centroid cv)"
  using assms by (rule centroid_is_bitmap_centroid)

theorem centroid_streaming_equals_bitmap_witness:
  "decodeRleToCanvas True \<lparr>rle_counts = CountsArray [1, 2, 3], rle_size = (2, 3)\<rparr> (255, 0, 0) =
     Inr (Some \<lparr>width = 3, height = 2,
       data = [0, 0, 0, 0, 255, 0, 0, 210, 0, 0, 0, 0, 255, 0, 0, 210, 0, 0, 0, 0, 0, 0, 0, 0]\<rparr>) \<and>
   calculateCentroid \<lparr>rle_counts = CountsArray [1, 2, 3], rle_size = (2, 3)\<rparr> =
     Inr (bitmap_centroid \<lparr>width = 3, height = 2,
       data = [0, 0, 0, 0, 255, 0, 0, 210, 0, 0, 0, 0, 255, 0, 0, 210, 0, 0, 0, 0, 0, 0, 0, 0]\<rparr>) \<and>
   bitmap_centroid \<lparr>width = 3, height = 2,
       data = [0, 0, 0, 0, 255, 0, 0, 210, 0, 0, 0, 0, 255, 0, 0, 210, 0, 0, 0, 0, 0, 0, 0, 0]\<rparr> =
     Some (1 / 2, 1 / 2)"
proof -
  let ?rle = "\<lparr>rle_counts = CountsArray [1, 2, 3], rle_size = (2, 3)\<rparr>"
  let ?cv = "\<lparr>width = 3, height = 2,
       data = [0, 0, 0, 0, 255, 0, 0, 210, 0, 0, 0, 0, 255, 0, 0, 210, 0, 0, 0, 0, 0, 0, 0, 0]\<rparr>"
  have r: "decodeRleToCanvas True ?rle (255, 0, 0) = Inr (Some ?cv)"
    by code_simp
  have b: "bitmap_centroid ?cv = Some (1 / 2, 1 / 2)"
    by code_simp
  from centroid_streaming_equals_bitmap [OF r] r b show ?thesis
    by simp
qed

section \<open>The claim about strings that end in the middle of a unit\<close>

text \<open>
  C5, as stated: on a string that ends in the middle of a unit the decoder fails with a
  decode error, and rasterization and centroid treat the mask as absent and the
  centroid as undefined. The decoder has no failing path: the string \<open>"01P"\<close> ends in
  the middle of a unit (\<open>'P'\<close> is unit 32, the continuation bit alone) and decodes to
  \<open>[0, 1, 0]\<close>; with size \<open>[1, 1]\<close> the rasterizer returns a canvas whose pixel is
  foreground, and the centroid is \<open>(0, 0)\<close>.
\<close>

theorem decode_truncated_fails_counterexample:
  "ends_mid_unit (units ''01P'') \<and>
   decodeCocoRleString (units ''01P'') = Inr [0, 1, 0] \<and>
   decodeRleToCanvas True \<lparr>rle_counts = CountsString (units ''01P''), rle_size = (1, 1)\<rparr> (255, 0, 0) =
     Inr (Some \<lparr>width = 1, height = 1, data = [255, 0, 0, 210]\<rparr>) \<and>
   calculateCentroid \<lparr>rle_counts = CountsString (units ''01P''), rle_size = (1, 1)\<rparr> =
     Inr (Some (0, 0))"
  by code_simp

text \<open>
  C5, amended: for every input string that ends in the middle of a unit the decoder
  terminates normally, with the counts it returns for the same string followed by the
  terminating unit \<open>'0'\<close> (the missing unit is read as one with no payload, no
  continuation and no sign); rasterization and centroid do not see a failure and work
  on these counts as they do on an array of them.
\<close>

theorem decode_truncated_returns:
  assumes "ends_mid_unit s"
  shows "\<exists>counts. decodeCocoRleString s = Inr counts \<and>
     decodeCocoRleString (s @ [48]) = Inr counts \<and>
     decodeRleToCanvas has_ctx \<lparr>rle_counts = CountsString s, rle_size = sz\<rparr> color =
       decodeRleToCanvas has_ctx \<lparr>rle_counts = CountsArray counts, rle_size = sz\<rparr> color \<and>
     calculateCentroid \<lparr>rle_counts = CountsString s, rle_size = sz\<rparr> =
       calculateCentroid \<lparr>rle_counts = CountsArray counts, rle_size = sz\<rparr>"
proof -
  obtain counts where c: "decodeCocoRleString s = Inr counts"
    by (simp add: decodeCocoRleString_def)
  have "decodeCocoRleString (s @ [48]) = Inr counts"
    using decode_truncated [OF assms] c by simp
  moreover have "decodeRleToCanvas has_ctx \<lparr>rle_counts = CountsString s, rle_size = sz\<rparr> color =
       decodeRleToCanvas has_ctx \<lparr>rle_counts = CountsArray counts, rle_size = sz\<rparr> color"
    by (simp add: decodeRleToCanvas_def normalize_counts_def c)
  moreover have "calculateCentroid \<lparr>rle_counts = CountsString s, rle_size = sz\<rparr> =
       calculateCentroid \<lparr>rle_counts = CountsArray counts, rle_size = sz\<rparr>"
    by (simp add: calculateCentroid_def normalize_counts_def c)
  ultimately show ?thesis
    using c by blast
qed

theorem decode_truncated_returns_witness:
  "ends_mid_unit (units ''01P'') \<and>
   (\<exists>counts. decodeCocoRleString (units ''01P'') = Inr counts \<and>
     decodeCocoRleString (units ''01P'' @ [48]) = Inr counts \<and>
     decodeRleToCanvas True \<lparr>rle_counts = CountsString (units ''01P''), rle_size = (1, 1)\<rparr> (255, 0, 0) =
       decodeRleToCanvas True \<lparr>rle_counts = CountsArray counts, rle_size = (1, 1)\<rparr> (255, 0, 0) \<and>
     calculateCentroid \<lparr>rle_counts = CountsString (units ''01P''), rle_size = (1, 1)\<rparr> =
       calculateCentroid \<lparr>rle_counts = CountsArray counts, rle_size = (1, 1)\<rparr>)"
proof -
  have e: "ends_mid_unit (units ''01P'')"
    by code_simp
  from decode_truncated_returns [OF e, of True "(1, 1)" "(255, 0, 0)"] e show ?thesis
    by blast
qed

section \<open>The claim about masks without foreground\<close>

text \<open>
  C9, as stated: for every RLE with no counts, or with the single run \<open>[h * w]\<close>,
  rasterization gives no mask or a transparent buffer and the centroid is undefined;
  and in general the centroid is undefined exactly when the RLE has no foreground
  pixel or decoding fails. Three inputs show where the source does something else.
  The string \<open>"02P"\<close> ends in the middle of a unit, yet it is decoded (to
  \<open>[0, 2, 0]\<close>) and the centroid is defined, since the decoder has no failure. With
  size \<open>[0, 0]\<close> the rasterizer asks for an image data of size zero before it looks
  at the counts, and the host throws. With counts \<open>[0, 0]\<close> and size \<open>[1, 1]\<close> no
  run holds a pixel, yet the end-of-array \<open>break\<close> leaves \<open>currentValue = 1\<close> and the
  centroid is \<open>(0, 0)\<close>.
\<close>

theorem zero_foreground_counterexample:
  "ends_mid_unit (units ''02P'') \<and>
   calculateCentroid \<lparr>rle_counts = CountsString (units ''02P''), rle_size = (1, 2)\<rparr> =
     Inr (Some (1 / 2, 0)) \<and>
   decodeRleToCanvas True \<lparr>rle_counts = CountsArray [], rle_size = (0, 0)\<rparr> (255, 0, 0) =
     Inl IndexSizeError \<and>
   odd_index_sum [0, 0] = 0 \<and>
   rle_foreground [0, 0] 1 1 = [] \<and>
   calculateCentroid \<lparr>rle_counts = CountsArray [0, 0], rle_size = (1, 1)\<rparr> = Inr (Some (0, 0))"
  by code_simp

text \<open>
  C9, amended: the counts of an RLE are its array, or its string as the decoder reads
  it (the decoder does not fail). For every RLE without counts the centroid is
  undefined and, when height and width are not zero, rasterization gives no mask. For
  every RLE of non-zero height and width whose counts are the single run \<open>[h * w]\<close>,
  rasterization gives a buffer without foreground pixel and the centroid is undefined.
  For every RLE whose counts are non-negative and sum to \<open>h * w\<close>, the centroid is
  undefined exactly when the RLE has no foreground pixel, and is otherwise the mean
  (x, y) of its foreground pixels; their number is the sum of the runs at odd
  indices, and they are the foreground pixels of the bitmap that rasterization gives.
\<close>

theorem zero_foreground_centroid:
  assumes "normalize_counts (rle_counts rle) = Some (Inr counts)" and "rle_size rle = (h, w)"
  shows
    "(counts = [] \<longrightarrow>
        calculateCentroid rle = Inr None \<and>
        (0 < h \<and> 0 < w \<longrightarrow> decodeRleToCanvas has_ctx rle color = Inr None)) \<and>
     (counts = [int (h * w)] \<and> 0 < h \<and> 0 < w \<longrightarrow>
        calculateCentroid rle = Inr None \<and>
        (\<exists>cv. decodeRleToCanvas True rle color = Inr (Some cv) \<and> foreground_pixels cv = [])) \<and>
     ((\<forall>r\<in>set counts. 0 \<le> r) \<and> sum_list counts = int (h * w) \<longrightarrow>
        calculateCentroid rle =
          Inr (if rle_foreground counts h w = [] then None
               else Some (of_nat (sum_list (map fst (rle_foreground counts h w))) /
                            of_nat (length (rle_foreground counts h w)),
                          of_nat (sum_list (map snd (rle_foreground counts h w))) /
                            of_nat (length (rle_foreground counts h w)))) \<and>
        int (length (rle_foreground counts h w)) = odd_index_sum counts \<and>
        (\<forall>cv. decodeRleToCanvas has_ctx rle color = Inr (Some cv) \<longrightarrow>
              mset (foreground_pixels cv) = mset (rle_foreground counts h w)))"
proof -
  have valid: "calculateCentroid rle =
          Inr (if rle_foreground counts h w = [] then None
               else Some (of_nat (sum_list (map fst (rle_foreground counts h w))) /
                            of_nat (length (rle_foreground counts h w)),
                          of_nat (sum_list (map snd (rle_foreground counts h w))) /
                            of_nat (length (rle_foreground counts h w)))) \<and>
        int (length (rle_foreground counts h w)) = odd_index_sum counts \<and>
        (\<forall>cv. decodeRleToCanvas has_ctx rle color = Inr (Some cv) \<longrightarrow>
              mset (foreground_pixels cv) = mset (rle_foreground counts h w))"
    if nn: "\<forall>r\<in>set counts. 0 \<le> r" and sum: "sum_list counts = int (h * w)"
    for has_ctx color
  proof (cases "counts = []")
    case True
    with assms show ?thesis
      by (simp add: calculateCentroid_def decodeRleToCanvas_def rle_foreground_def rle_mask_def
          odd_index_sum_def)
  next
    case False
    note scan = scan_pixels_rle [OF nn False sum]
    from calculateCentroid_scan [OF assms False] length_rle_foreground [OF nn False sum]
      foreground_pixels_canvas [OF assms, of has_ctx color]
    show ?thesis
      by (simp add: scan)
  qed
  have single: "calculateCentroid rle = Inr None \<and>
        (\<exists>cv. decodeRleToCanvas True rle color = Inr (Some cv) \<and> foreground_pixels cv = [])"
    if c: "counts = [int (h * w)]" and h: "0 < h" and w: "0 < w"
  proof -
    have nn: "\<forall>r\<in>set counts. 0 \<le> r" and sum: "sum_list counts = int (h * w)"
      by (simp_all add: c)
    have "odd_index_sum counts = 0"
      by (simp add: c odd_index_sum_def)
    with valid [OF nn sum, of True color] have e: "rle_foreground counts h w = []"
      and cen: "calculateCentroid rle = Inr None"
      and cv: "\<forall>cv. decodeRleToCanvas True rle color = Inr (Some cv) \<longrightarrow>
          mset (foreground_pixels cv) = mset (rle_foreground counts h w)"
      by simp_all
    obtain cv where r: "decodeRleToCanvas True rle color = Inr (Some cv)"
      using raster_returns_canvas [OF assms h w, of color] c by auto
    with cv e have "foreground_pixels cv = []"
      by simp
    with cen r show ?thesis
      by blast
  qed
  have none: "calculateCentroid rle = Inr None \<and>
        (0 < h \<and> 0 < w \<longrightarrow> decodeRleToCanvas has_ctx rle color = Inr None)"
    if "counts = []"
    using that assms by (simp add: calculateCentroid_def decodeRleToCanvas_def)
  from none single valid [of has_ctx color] show ?thesis
    by blast
qed

theorem zero_foreground_centroid_witness:
  "calculateCentroid \<lparr>rle_counts = CountsArray [4], rle_size = (2, 2)\<rparr> = Inr None \<and>
   (\<exists>cv. decodeRleToCanvas True \<lparr>rle_counts = CountsArray [4], rle_size = (2, 2)\<rparr> (255, 0, 0) =
            Inr (Some cv) \<and> foreground_pixels cv = []) \<and>
   rle_foreground [4] 2 2 = [] \<and>
   odd_index_sum [4] = 0"
proof -
  let ?rle = "\<lparr>rle_counts = CountsArray [4], rle_size = (2, 2)\<rparr>"
  have n: "normalize_counts (rle_counts ?rle) = Some (Inr [4])"
    by (simp add: normalize_counts_def)
  have z: "rle_size ?rle = (2, 2)"
    by simp
  have "rle_foreground [4] 2 2 = []" and "odd_index_sum [4] = 0"
    by code_simp+
  with zero_foreground_centroid [OF n z, of True "(255, 0, 0)"] show ?thesis
    by simp
qed

section \<open>The claims about the annotation matcher\<close>

text \<open>
  C6, as stated: the record found is the first whose final path segment, stripped of
  its extension (the part before the last dot), equals the uploaded name stripped the
  same way. The source keeps a name whole when nothing stands before its last dot:
  for the record \<open>"CT/.png"\<close> and the upload \<open>".jpg"\<close> both stripped names are empty,
  so the property as stated has the record found, but the handler compares \<open>".png"\<close>
  with \<open>".jpg"\<close> and reports that nothing was found.
\<close>

theorem upload_dot_names_counterexample:
  "lower_ascii (stripped_as_stated (final_segment (units ''CT/.png''))) =
     lower_ascii (stripped_as_stated (trim (units ''.jpg''))) \<and>
   matchedImageId
     (handleImageUpload lower_ascii
        \<lparr>cocoData = Some \<lparr>images = [\<lparr>img_id = IdNum 1, img_width = 1, img_height = 1,
                                        file_name = units ''CT/.png''\<rparr>],
                            annotations = []\<rparr>,
         currentImageFile = None, matchedImageId = None, activeTab = Upload,
         selectedTreeImage = None, error = None\<rparr>
        (units ''.jpg'')) = None"
proof -
  have "lower_ascii (stripped_as_stated (final_segment (units ''CT/.png''))) =
      lower_ascii (stripped_as_stated (trim (units ''.jpg'')))"
    by (simp add: matcher_defs)
  moreover have "lower_ascii (name_no_ext (getBasename (units ''CT/.png''))) \<noteq>
      lower_ascii (name_no_ext (trim (units ''.jpg'')))"
    by (simp add: matcher_defs)
  ultimately show ?thesis
    by (simp add: handleImageUpload_def Let_def)
qed

text \<open>
  C6, amended: for every loaded document and every uploaded file name, the handler
  finds the first image record in document order whose base name (the final path
  segment of \<open>file_name\<close>, or the whole \<open>file_name\<close> when that segment is empty, trimmed)
  with its extension stripped (the part before the last dot; the whole name when there
  is no dot or nothing before the last dot) equals, after \<open>toLowerCase\<close>, the trimmed
  uploaded name stripped the same way; it then stores that record's id and the file.
  If no record matches, it stores an error message that lists the base names of the
  first three records (fewer when the document has fewer), in document order.
\<close>

theorem upload_matches_first_record:
  assumes "cocoData st = Some doc"
  shows
    "let st' = handleImageUpload toLowerCase st file;
         matches = (\<lambda>img. toLowerCase (stripped (base_name (file_name img))) =
                           toLowerCase (stripped (trim file)))
     in (\<exists>i<length (images doc).
           matches (images doc ! i) \<and> (\<forall>j<i. \<not> matches (images doc ! j)) \<and>
           matchedImageId st' = Some (img_id (images doc ! i)) \<and>
           currentImageFile st' = Some file \<and> error st' = None)
        \<or> ((\<forall>img\<in>set (images doc). \<not> matches img) \<and>
            matchedImageId st' = None \<and> currentImageFile st' = None \<and>
            error st' = Some (not_found_message (trim file)
              (join_comma (map (\<lambda>i. base_name (file_name i)) (take 3 (images doc))))))"
proof -
  let ?P = "\<lambda>img. toLowerCase (stripped (base_name (file_name img))) =
                    toLowerCase (stripped (trim file))"
  have f: "find (\<lambda>img. toLowerCase (name_no_ext (getBasename (file_name img))) =
                       toLowerCase (name_no_ext (trim file))) (images doc) = find ?P (images doc)"
    by (simp add: name_no_ext_stripped getBasename_base_name)
  show ?thesis
  proof (cases "find ?P (images doc)")
    case None
    with find_first [where P = ?P and xs = "images doc"] have "\<forall>img\<in>set (images doc). \<not> ?P img"
      by simp
    with None f assms show ?thesis
      by (simp add: handleImageUpload_def Let_def getBasename_base_name)
  next
    case (Some img)
    with find_first [where P = ?P and xs = "images doc"]
    obtain i where "i < length (images doc)" "img = images doc ! i" "?P (images doc ! i)"
      "\<forall>j<i. \<not> ?P (images doc ! j)"
      by auto
    with Some f assms show ?thesis
      by (auto simp: handleImageUpload_def Let_def)
  qed
qed

theorem upload_matches_first_record_witness:
  "matchedImageId
     (handleImageUpload lower_ascii
        \<lparr>cocoData = Some \<lparr>images = [\<lparr>img_id = IdNum 7, img_width = 1, img_height = 1,
                                        file_name = units ''CT/brain/scan_001.png''\<rparr>],
                            annotations = []\<rparr>,
         currentImageFile = None, matchedImageId = None, activeTab = Upload,
         selectedTreeImage = None, error = None\<rparr>
        (units ''scan_001.jpg'')) = Some (IdNum 7) \<and>
   (let st' = handleImageUpload lower_ascii
        \<lparr>cocoData = Some \<lparr>images = [\<lparr>img_id = IdNum 7, img_width = 1, img_height = 1,
                                        file_name = units ''CT/brain/scan_001.png''\<rparr>],
                            annotations = []\<rparr>,
         currentImageFile = None, matchedImageId = None, activeTab = Upload,
         selectedTreeImage = None, error = None\<rparr>
        (units ''scan_001.jpg'');
        matches = (\<lambda>img. lower_ascii (stripped (base_name (file_name img))) =
                          lower_ascii (stripped (trim (units ''scan_001.jpg''))));
        imgs = [\<lparr>img_id = IdNum 7, img_width = 1, img_height = 1,
                 file_name = units ''CT/brain/scan_001.png''\<rparr>]
    in (\<exists>i<length imgs.
           matches (imgs ! i) \<and> (\<forall>j<i. \<not> matches (imgs ! j)) \<and>
           matchedImageId st' = Some (img_id (imgs ! i)) \<and>
           currentImageFile st' = Some (units ''scan_001.jpg'') \<and> error st' = None)
        \<or> ((\<forall>img\<in>set imgs. \<not> matches img) \<and>
            matchedImageId st' = None \<and> currentImageFile st' = None \<and>
            error st' = Some (not_found_message (trim (units ''scan_001.jpg''))
              (join_comma (map (\<lambda>i. base_name (file_name i)) (take 3 imgs))))))"
proof -
  let ?doc = "\<lparr>images = [\<lparr>img_id = IdNum 7, img_width = 1, img_height = 1,
                             file_name = units ''CT/brain/scan_001.png''\<rparr>],
                 annotations = []\<rparr>"
  let ?st = "\<lparr>cocoData = Some ?doc,
         currentImageFile = None, matchedImageId = None, activeTab = Upload,
         selectedTreeImage = None, error = None\<rparr>"
  have c: "cocoData ?st = Some ?doc"
    by simp
  have "lower_ascii (name_no_ext (getBasename (units ''CT/brain/scan_001.png''))) =
      lower_ascii (name_no_ext (trim (units ''scan_001.jpg'')))"
    by (simp add: matcher_defs)
  then have m: "matchedImageId (handleImageUpload lower_ascii ?st (units ''scan_001.jpg'')) =
      Some (IdNum 7)"
    by (simp add: handleImageUpload_def Let_def)
  from upload_matches_first_record [OF c, of lower_ascii "units ''scan_001.jpg''"] m
  show ?thesis
    by (simp add: Let_def)
qed

section \<open>The claim about the ids of annotations\<close>

text \<open>
  C7: for a resolved target id \<open>t\<close>, \<open>currentAnnotations\<close> returns exactly the
  annotations of the document whose \<open>image_id\<close> is loosely equal to \<open>t\<close>, in their
  order. When the target is the number \<open>n\<close>, an annotation whose \<open>image_id\<close> is the
  string that represents \<open>n\<close> is among them (\<open>"5"\<close> for 5), and an annotation whose
  \<open>image_id\<close> is a number is among them exactly when that number is \<open>n\<close>; when the
  target is the string that represents \<open>n\<close>, an annotation whose \<open>image_id\<close> is the
  number \<open>n\<close> is among them.
\<close>

theorem permissive_id_filter:
  assumes "cocoData st = Some doc"
    and "(if activeTab st = Upload then matchedImageId st
          else map_option img_id (selectedTreeImage st)) = Some t"
  shows "currentAnnotations other st =
           filter (\<lambda>ann. loose_eq other (image_id ann) t) (annotations doc) \<and>
         (\<forall>n. t = IdNum n \<and> \<bar>n\<bar> \<le> 2 ^ 53 \<longrightarrow>
            (\<forall>ann\<in>set (annotations doc).
               (image_id ann = IdStr (number_to_string n) \<longrightarrow>
                  ann \<in> set (currentAnnotations other st)) \<and>
               (\<forall>m. image_id ann = IdNum m \<longrightarrow>
                  (ann \<in> set (currentAnnotations other st) \<longleftrightarrow> m = n)))) \<and>
         (\<forall>n. t = IdStr (number_to_string n) \<and> \<bar>n\<bar> \<le> 2 ^ 53 \<longrightarrow>
            (\<forall>ann\<in>set (annotations doc).
               image_id ann = IdNum n \<longrightarrow> ann \<in> set (currentAnnotations other st)))"
proof -
  have f: "currentAnnotations other st =
      filter (\<lambda>ann. loose_eq other (image_id ann) t) (annotations doc)"
    using assms by (simp add: currentAnnotations_def Let_def)
  show ?thesis
    unfolding f by (auto simp: StringToNumber_number_to_string)
qed

theorem permissive_id_filter_witness:
  "number_to_string 5 = units ''5'' \<and>
   currentAnnotations (\<lambda>s. None)
     \<lparr>cocoData = Some \<lparr>images = [],
        annotations = [\<lparr>ann_id = IdNum 1, image_id = IdStr (units ''5''), category_id = IdNum 1\<rparr>,
                       \<lparr>ann_id = IdNum 2, image_id = IdNum 6, category_id = IdNum 1\<rparr>,
                       \<lparr>ann_id = IdNum 3, image_id = IdNum 5, category_id = IdNum 1\<rparr>]\<rparr>,
      currentImageFile = None, matchedImageId = Some (IdNum 5), activeTab = Upload,
      selectedTreeImage = None, error = None\<rparr> =
     [\<lparr>ann_id = IdNum 1, image_id = IdStr (units ''5''), category_id = IdNum 1\<rparr>,
      \<lparr>ann_id = IdNum 3, image_id = IdNum 5, category_id = IdNum 1\<rparr>]"
proof -
  let ?doc = "\<lparr>images = [],
        annotations = [\<lparr>ann_id = IdNum 1, image_id = IdStr (units ''5''), category_id = IdNum 1\<rparr>,
                       \<lparr>ann_id = IdNum 2, image_id = IdNum 6, category_id = IdNum 1\<rparr>,
                       \<lparr>ann_id = IdNum 3, image_id = IdNum 5, category_id = IdNum 1\<rparr>]\<rparr>"
  let ?st = "\<lparr>cocoData = Some ?doc,
      currentImageFile = None, matchedImageId = Some (IdNum 5), activeTab = Upload,
      selectedTreeImage = None, error = None\<rparr>"
  have s: "number_to_string 5 = units ''5''"
    by (simp add: number_to_string_def digits_of.simps units_def)
  have c: "cocoData ?st = Some ?doc"
    by simp
  have t: "(if activeTab ?st = Upload then matchedImageId ?st
          else map_option img_id (selectedTreeImage ?st)) = Some (IdNum 5)"
    by simp
  have five: "loose_eq (\<lambda>s. None) (IdStr (units ''5'')) (IdNum 5)"
    using StringToNumber_number_to_string [of 5 "\<lambda>s. None"] s by simp
  from permissive_id_filter [OF c t, of "\<lambda>s. None"]
  have "currentAnnotations (\<lambda>s. None) ?st =
      filter (\<lambda>ann. loose_eq (\<lambda>s. None) (image_id ann) (IdNum 5)) (annotations ?doc)"
    by blast
  with five s show ?thesis
    by simp
qed

section \<open>The claims about the hierarchy indexer\<close>

text \<open>
  C8, as stated: below every folder node, all folder children are shown before all file
  children, and children of the same kind in the order of the case-sensitive
  lexicographic comparison of their names. The source compares the names with
  \<open>localeCompare\<close>, the comparison of the host's locale. Where that puts \<open>"a"\<close>
  before \<open>"B"\<close>, as the hosts in use do, the files \<open>B\<close> and \<open>a\<close> of a folder are
  shown as \<open>a\<close>, \<open>B\<close>, while the case-sensitive lexicographic comparison puts
  \<open>"B"\<close> (unit 66) before \<open>"a"\<close> (unit 97).
\<close>

theorem sibling_order_case_counterexample:
  "consistent_comparator compare_folded \<and>
   map fst (shown_entries compare_folded
     (TreeNode (units ''root'') Folder
        (Some [(units ''B'', TreeNode (units ''B'') File None None (units ''B'')),
               (units ''a'', TreeNode (units ''a'') File None None (units ''a''))])
        None [])) = [units ''a'', units ''B''] \<and>
   0 < compare_units (units ''a'') (units ''B'') \<and>
   \<not> ordered_siblings compare_units (shown_entries compare_folded
     (TreeNode (units ''root'') Folder
        (Some [(units ''B'', TreeNode (units ''B'') File None None (units ''B'')),
               (units ''a'', TreeNode (units ''a'') File None None (units ''a''))])
        None []))"
proof -
  let ?node = "TreeNode (units ''root'') Folder
        (Some [(units ''B'', TreeNode (units ''B'') File None None (units ''B'')),
               (units ''a'', TreeNode (units ''a'') File None None (units ''a''))])
        None []"
  have s: "shown_entries compare_folded ?node =
      [(units ''a'', TreeNode (units ''a'') File None None (units ''a'')),
       (units ''B'', TreeNode (units ''B'') File None None (units ''B''))]"
    by (simp add: tree_defs compare_folded_def lower_ascii_def)
  have c: "0 < compare_units (units ''a'') (units ''B'')"
    by (simp add: units_def)
  have "\<not> ordered_siblings compare_units (shown_entries compare_folded ?node)"
  proof
    assume "ordered_siblings compare_units (shown_entries compare_folded ?node)"
    then have "compare_units (fst (shown_entries compare_folded ?node ! 0))
        (fst (shown_entries compare_folded ?node ! 1)) \<le> 0"
      unfolding ordered_siblings_def s by (auto simp del: compare_units.simps)
    with c show False
      by (simp add: s del: compare_units.simps)
  qed
  with s c consistent_compare_folded show ?thesis
    by simp
qed

text \<open>
  C8, amended: below every folder node, FileTree shows all folder children before all
  file children, and children of the same kind in the order of the host's
  \<open>localeCompare\<close> on their names, a consistent comparison function; it shows each
  child once. Where \<open>localeCompare\<close> orders names as the case-sensitive lexicographic
  comparison does, the siblings stand in that order. For images with the file names
  \<open>"A/x.png"\<close>, \<open>"A/y.png"\<close>, \<open>"B/z.png"\<close> (the comparison putting \<open>"A"\<close>
  before \<open>"B"\<close> and \<open>"x.png"\<close> before \<open>"y.png"\<close>) the root shows exactly the
  folders A and B, in this order, and A shows exactly the files x.png and y.png, in
  this order.
\<close>

theorem sibling_order:
  assumes "consistent_comparator localeCompare"
  shows
    "ordered_siblings localeCompare (shown_entries localeCompare node) \<and>
     ((\<forall>a b. localeCompare a b \<le> 0 \<longleftrightarrow> compare_units a b \<le> 0) \<longrightarrow>
        ordered_siblings compare_units (shown_entries localeCompare node)) \<and>
     (node_type node = Folder \<longrightarrow>
        mset (shown_entries localeCompare node) =
          mset (case children node of None \<Rightarrow> [] | Some props \<Rightarrow> props)) \<and>
     (localeCompare (units ''A'') (units ''B'') \<le> 0 \<and>
      localeCompare (units ''x.png'') (units ''y.png'') \<le> 0 \<longrightarrow>
        (\<exists>root a b x y.
           buildFileTree [image_named 1 ''A/x.png'', image_named 2 ''A/y.png'',
                          image_named 3 ''B/z.png''] = Some root \<and>
           shown_entries localeCompare root = [(units ''A'', a), (units ''B'', b)] \<and>
           name a = units ''A'' \<and> node_type a = Folder \<and>
           name b = units ''B'' \<and> node_type b = Folder \<and>
           shown_entries localeCompare a = [(units ''x.png'', x), (units ''y.png'', y)] \<and>
           name x = units ''x.png'' \<and> node_type x = File \<and>
           node_data x = Some (image_named 1 ''A/x.png'') \<and>
           name y = units ''y.png'' \<and> node_type y = File \<and>
           node_data y = Some (image_named 2 ''A/y.png'')))"
proof (intro conjI impI)
  show o: "ordered_siblings localeCompare (shown_entries localeCompare node)"
    by (rule shown_entries_ordered [OF assms])
  show "ordered_siblings compare_units (shown_entries localeCompare node)"
    if "\<forall>a b. localeCompare a b \<le> 0 \<longleftrightarrow> compare_units a b \<le> 0"
    using o that by (simp add: ordered_siblings_def)
  show "mset (shown_entries localeCompare node) =
      mset (case children node of None \<Rightarrow> [] | Some props \<Rightarrow> props)"
    if "node_type node = Folder"
    using that by (rule shown_entries_mset)
next
  assume "localeCompare (units ''A'') (units ''B'') \<le> 0 \<and>
      localeCompare (units ''x.png'') (units ''y.png'') \<le> 0"
  then show "\<exists>root a b x y.
           buildFileTree [image_named 1 ''A/x.png'', image_named 2 ''A/y.png'',
                          image_named 3 ''B/z.png''] = Some root \<and>
           shown_entries localeCompare root = [(units ''A'', a), (units ''B'', b)] \<and>
           name a = units ''A'' \<and> node_type a = Folder \<and>
           name b = units ''B'' \<and> node_type b = Folder \<and>
           shown_entries localeCompare a = [(units ''x.png'', x), (units ''y.png'', y)] \<and>
           name x = units ''x.png'' \<and> node_type x = File \<and>
           node_data x = Some (image_named 1 ''A/x.png'') \<and>
           name y = units ''y.png'' \<and> node_type y = File \<and>
           node_data y = Some (image_named 2 ''A/y.png'')"
    by (simp add: tree_defs)
qed

theorem sibling_order_witness:
  "consistent_comparator compare_units \<and>
   map fst (shown_entries compare_units
     (TreeNode (units ''root'') Folder
        (Some [(units ''b.png'', TreeNode (units ''b.png'') File None None (units ''b.png'')),
               (units ''a'', TreeNode (units ''a'') Folder (Some []) None (units ''a'')),
               (units ''B'', TreeNode (units ''B'') Folder (Some []) None (units ''B''))])
        None [])) = [units ''B'', units ''a'', units ''b.png''] \<and>
   ordered_siblings compare_units (shown_entries compare_units
     (TreeNode (units ''root'') Folder
        (Some [(units ''b.png'', TreeNode (units ''b.png'') File None None (units ''b.png'')),
               (units ''a'', TreeNode (units ''a'') Folder (Some []) None (units ''a'')),
               (units ''B'', TreeNode (units ''B'') Folder (Some []) None (units ''B''))])
        None [])) \<and>
   (\<exists>root a b x y.
      buildFileTree [image_named 1 ''A/x.png'', image_named 2 ''A/y.png'',
                     image_named 3 ''B/z.png''] = Some root \<and>
      shown_entries compare_units root = [(units ''A'', a), (units ''B'', b)] \<and>
      name a = units ''A'' \<and> node_type a = Folder \<and>
      name b = units ''B'' \<and> node_type b = Folder \<and>
      shown_entries compare_units a = [(units ''x.png'', x), (units ''y.png'', y)] \<and>
      name x = units ''x.png'' \<and> node_type x = File \<and>
      node_data x = Some (image_named 1 ''A/x.png'') \<and>
      name y = units ''y.png'' \<and> node_type y = File \<and>
      node_data y = Some (image_named 2 ''A/y.png''))"
proof -
  let ?node = "TreeNode (units ''root'') Folder
        (Some [(units ''b.png'', TreeNode (units ''b.png'') File None None (units ''b.png'')),
               (units ''a'', TreeNode (units ''a'') Folder (Some []) None (units ''a'')),
               (units ''B'', TreeNode (units ''B'') Folder (Some []) None (units ''B''))])
        None []"
  have c: "consistent_comparator compare_units"
    by (rule consistent_compare_units)
  have e: "map fst (shown_entries compare_units ?node) = [units ''B'', units ''a'', units ''b.png'']"
    by (simp add: tree_defs)
  have l: "compare_units (units ''A'') (units ''B'') \<le> 0 \<and>
      compare_units (units ''x.png'') (units ''y.png'') \<le> 0"
    by (simp add: units_def)
  from sibling_order [OF c, of ?node] c e l show ?thesis
    by blast
qed

text \<open>
  C10 (shape of the tree): every image of a list whose file names split into distinct
  segment sequences, none a proper prefix of another, is held by exactly one file node,
  at the path of its segments. A children object is a plain object, and the source
  tests \<open>!current.children[part]\<close>: for a path segment that names a function of
  \<open>Object.prototype\<close> the test reads that function, and no folder is stored. The image
  \<open>"constructor/x.png"\<close> alone gives a root without children, so no file node holds
  it.
\<close>

theorem tree_misses_inherited_segment:
  "buildFileTree [image_named 1 ''constructor/x.png''] =
     Some (TreeNode (units ''root'') Folder (Some []) None [])"
  by (simp add: tree_defs)

end
